theory Spec2Isabelle
  imports Main "HOL-Library.Product_Lexorder"
begin

section \<open>Data model of the select dispatcher\<close>

text \<open>
  File descriptors are small non-negative integers; the scan of \<open>DispatchOne\<close> only ever
  indexes the table with values from 3 upwards, so they are naturals here.  A callback is
  identified by a number; what it does when invoked is given by the environment below, because
  a callback may re-enter the dispatcher and change its table and interest set.
\<close>

type_synonym fd = nat
type_synonym cb = nat

text \<open>
  Modelled from the spec: the \<open>Watch\<close> struct of the header \<open>select_dispatcher.hpp\<close>, which
  the source file uses through \<open>w.active\<close>, \<open>w.read_cb\<close>, \<open>w.write_cb\<close> and \<open>w.except_cb\<close>
  (an active flag, two FIFO queues of callbacks and one optional exception handler).
\<close>

record Watch =
  active :: bool
  read_cb :: "cb list"
  write_cb :: "cb list"
  except_cb :: "cb option"

text \<open>
  Modelled from the spec: the readiness-set adapter \<open>Select\<close> (three sets of interest bits
  with query and clear operations); its blocking wait is a parameter of the environment.
\<close>

record Select =
  read_set :: "fd set"
  write_set :: "fd set"
  except_set :: "fd set"

definition InRead :: "Select \<Rightarrow> fd \<Rightarrow> bool" where
  "InRead f x = (x \<in> read_set f)"

definition InWrite :: "Select \<Rightarrow> fd \<Rightarrow> bool" where
  "InWrite f x = (x \<in> write_set f)"

definition InException :: "Select \<Rightarrow> fd \<Rightarrow> bool" where
  "InException f x = (x \<in> except_set f)"

definition ClearRead :: "Select \<Rightarrow> fd \<Rightarrow> Select" where
  "ClearRead f x = f\<lparr>read_set := read_set f - {x}\<rparr>"

definition ClearWrite :: "Select \<Rightarrow> fd \<Rightarrow> Select" where
  "ClearWrite f x = f\<lparr>write_set := write_set f - {x}\<rparr>"

definition ClearException :: "Select \<Rightarrow> fd \<Rightarrow> Select" where
  "ClearException f x = f\<lparr>except_set := except_set f - {x}\<rparr>"

text \<open>The members \<open>select_\<close> and \<open>watch_\<close> of the dispatcher.\<close>

record Dispatcher =
  select :: Select
  watch :: "Watch list"

datatype kind = Read | Write

text \<open>
  What \<open>DispatchOne\<close> does that is visible from outside: the lines it hands to the logging
  facility and the callbacks it invokes, in the order in which they happen.  A line is
  recorded wherever the source writes \<open>LOG\<close>; whether the facility prints it is the
  facility's business.  Callbacks have no access to this record.
\<close>

datatype event =
    LogSelect "(char \<times> fd) list"
  | LogInterrupted
  | LogNoHandler kind fd
  | Invoke kind fd cb
  | InvokeExcept fd cb
  | InvokeDefault fd

type_synonym state = "Dispatcher \<times> event list"

datatype exn = Exception string int

datatype cb_result = Returns bool | Throws exn

text \<open>
  How a piece of the dispatcher's code ends: it returns, it throws (the dispatcher object
  survives in the given state), a failed \<open>assert\<close> aborts the process, or the behaviour is
  undefined (\<open>pop_front\<close> on an empty deque, an index beyond the vector).
\<close>

datatype 'a outcome = Returned 'a | Threw exn 'a | Aborted | Undefined

text \<open>The state in which the dispatcher is left, where there is one.\<close>

fun final :: "'a outcome \<Rightarrow> 'a option" where
  "final (Returned s) = Some s"
| "final (Threw e s) = Some s"
| "final Aborted = None"
| "final Undefined = None"

text \<open>
  Everything \<open>DispatchOne\<close> depends on and that is not in the source file: the two
  compile-time flags of the header, the value of \<open>EINTR\<close>, the wait primitive (it gets the
  copied interest set and the timeout in milliseconds and yields the return value \<open>r\<close>, the
  value of \<open>errno\<close> and the descriptor sets as \<open>select\<close> left them), the behaviour of every
  callback and the default exception policy.
\<close>

record Env =
  self_verify :: bool
  debug :: bool
  EINTR :: int
  select_timeout :: "Select \<Rightarrow> int \<Rightarrow> int \<times> int \<times> Select"
  call :: "cb \<Rightarrow> Dispatcher \<Rightarrow> cb_result \<times> Dispatcher"
  DefaultExceptionCallback :: "Dispatcher \<Rightarrow> cb_result \<times> Dispatcher"

text \<open>
  The descriptor an event is about, and the place of the event within the handling of that
  descriptor: 0 for the read chain, 1 for the write chain, 2 for the exception handler.  The
  two log lines written before the scan belong to no descriptor.
\<close>

fun descr :: "event \<Rightarrow> fd option" where
  "descr (LogSelect l) = None"
| "descr LogInterrupted = None"
| "descr (LogNoHandler k x) = Some x"
| "descr (Invoke k x c) = Some x"
| "descr (InvokeExcept x c) = Some x"
| "descr (InvokeDefault x) = Some x"

fun step :: "event \<Rightarrow> nat" where
  "step (LogNoHandler k x) = (case k of Read \<Rightarrow> 0 | Write \<Rightarrow> 1)"
| "step (Invoke k x c) = (case k of Read \<Rightarrow> 0 | Write \<Rightarrow> 1)"
| "step (InvokeExcept x c) = 2"
| "step (InvokeDefault x) = 2"
| "step e = 0"

text \<open>The callbacks taken from queue \<open>k\<close> of descriptor \<open>x\<close> and invoked, in order.\<close>

fun calls :: "kind \<Rightarrow> fd \<Rightarrow> event list \<Rightarrow> cb list" where
  "calls k x [] = []"
| "calls k x (Invoke k' x' c # es) =
     (if k' = k \<and> x' = x then c # calls k x es else calls k x es)"
| "calls k x (e # es) = calls k x es"

definition key :: "event \<Rightarrow> nat \<times> nat" where
  "key e = (case descr e of None \<Rightarrow> 0 | Some x \<Rightarrow> x, step e)"

section \<open>DispatchOne\<close>

text \<open>
  The self-verification loop: both assertions for every active entry from 3 on.  The
  assertions are taken as compiled in; a build without them behaves as with the flag off.
\<close>

definition verify :: "Dispatcher \<Rightarrow> bool" where
  "verify d =
     list_all (\<lambda>x. if active (watch d ! x)
                    then ((read_cb (watch d ! x) = []) \<noteq> InRead (select d) x) \<and>
                         ((write_cb (watch d ! x) = []) \<noteq> InWrite (select d) x)
                    else True)
       [3..<length (watch d)]"

text \<open>The line the debug loop builds.\<close>

definition debug_line :: "Dispatcher \<Rightarrow> (char \<times> fd) list" where
  "debug_line d =
     concat (map (\<lambda>x. if active (watch d ! x)
                       then (if InRead (select d) x then [(CHR ''r'', x)] else []) @
                            (if InWrite (select d) x then [(CHR ''w'', x)] else []) @
                            (if InException (select d) x then [(CHR ''e'', x)] else [])
                       else [])
       [3..<length (watch d)])"

fun queue :: "kind \<Rightarrow> Watch \<Rightarrow> cb list" where
  "queue Read w = read_cb w"
| "queue Write w = write_cb w"

fun pop_front :: "kind \<Rightarrow> Watch \<Rightarrow> Watch" where
  "pop_front Read w = w\<lparr>read_cb := tl (read_cb w)\<rparr>"
| "pop_front Write w = w\<lparr>write_cb := tl (write_cb w)\<rparr>"

text \<open>
  The loop \<open>while (w->read_cb.size() && w->read_cb.front()() == false)\<close> and its twin for
  \<open>write_cb\<close>.  The entry is read again from the table after the callback has run.  The loop
  need not end: a callback may register another one each time it is called.
\<close>

partial_function (option) drain :: "Env \<Rightarrow> kind \<Rightarrow> fd \<Rightarrow> state \<Rightarrow> state outcome option" where
  "drain env k x s =
     (case queue k (watch (fst s) ! x) of
        [] \<Rightarrow> Some (Returned s)
      | c # _ \<Rightarrow>
          (case call env c (fst s) of
             (Throws e, d') \<Rightarrow> Some (Threw e (d', snd s @ [Invoke k x c]))
           | (Returns b, d') \<Rightarrow>
               if b then Some (Returned (d', snd s @ [Invoke k x c]))
               else if x < length (watch d') \<and> queue k (watch d' ! x) \<noteq> []
               then drain env k x
                      (d'\<lparr>watch := (watch d')[x := pop_front k (watch d' ! x)]\<rparr>,
                       snd s @ [Invoke k x c])
               else Some Undefined))"

text \<open>The code after the read loop, from the second \<open>w = &watch_[fd]\<close> on.\<close>

definition read_done :: "fd \<Rightarrow> Dispatcher \<Rightarrow> Dispatcher" where
  "read_done x d =
     (if read_cb (watch d ! x) = [] then
        if write_cb (watch d ! x) = [] \<and> except_cb (watch d ! x) = None
        then d\<lparr>select := ClearException (ClearWrite (ClearRead (select d) x) x) x,
               watch := (watch d)[x := (watch d ! x)\<lparr>active := False\<rparr>]\<rparr>
        else d\<lparr>select := ClearRead (select d) x\<rparr>
      else d)"

definition write_done :: "fd \<Rightarrow> Dispatcher \<Rightarrow> Dispatcher" where
  "write_done x d =
     (if write_cb (watch d ! x) = [] then
        if read_cb (watch d ! x) = [] \<and> except_cb (watch d ! x) = None
        then d\<lparr>select := ClearException (ClearRead (ClearWrite (select d) x) x) x,
               watch := (watch d)[x := (watch d ! x)\<lparr>active := False\<rparr>]\<rparr>
        else d\<lparr>select := ClearWrite (select d) x\<rparr>
      else d)"

definition read_section :: "Env \<Rightarrow> Select \<Rightarrow> fd \<Rightarrow> state \<Rightarrow> state outcome option" where
  "read_section env fdset x s =
     (if InRead fdset x then
        if read_cb (watch (fst s) ! x) \<noteq> [] then
          (case drain env Read x s of
             Some (Returned (d, tr)) \<Rightarrow>
               if x < length (watch d) then Some (Returned (read_done x d, tr))
               else Some Undefined
           | r \<Rightarrow> r)
        else Some (Returned ((fst s)\<lparr>select := ClearRead (select (fst s)) x\<rparr>,
                             snd s @ [LogNoHandler Read x]))
      else Some (Returned s))"

definition write_section :: "Env \<Rightarrow> Select \<Rightarrow> fd \<Rightarrow> state \<Rightarrow> state outcome option" where
  "write_section env fdset x s =
     (if InWrite fdset x then
        if write_cb (watch (fst s) ! x) \<noteq> [] then
          (case drain env Write x s of
             Some (Returned (d, tr)) \<Rightarrow>
               if x < length (watch d) then Some (Returned (write_done x d, tr))
               else Some Undefined
           | r \<Rightarrow> r)
        else Some (Returned ((fst s)\<lparr>select := ClearWrite (select (fst s)) x\<rparr>,
                             snd s @ [LogNoHandler Write x]))
      else Some (Returned s))"

definition except_section :: "Env \<Rightarrow> Select \<Rightarrow> fd \<Rightarrow> state \<Rightarrow> state outcome" where
  "except_section env fdset x s =
     (if InException fdset x then
        (case except_cb (watch (fst s) ! x) of
           Some c \<Rightarrow>
             (case call env c (fst s) of
                (Throws e, d') \<Rightarrow> Threw e (d', snd s @ [InvokeExcept x c])
              | (Returns b, d') \<Rightarrow>
                  if \<not> b
                  then Returned (d'\<lparr>select := ClearException (select d') x\<rparr>,
                                 snd s @ [InvokeExcept x c])
                  else Returned (d', snd s @ [InvokeExcept x c]))
         | None \<Rightarrow>
             (case DefaultExceptionCallback env (fst s) of
                (Throws e, d') \<Rightarrow> Threw e (d', snd s @ [InvokeDefault x])
              | (Returns b, d') \<Rightarrow> Returned (d', snd s @ [InvokeDefault x])))
      else Returned s)"

text \<open>The body of the scan for one descriptor.\<close>

definition dispatch_fd :: "Env \<Rightarrow> Select \<Rightarrow> fd \<Rightarrow> state \<Rightarrow> state outcome option" where
  "dispatch_fd env fdset x s =
     (if \<not> active (watch (fst s) ! x) then Some (Returned s)
      else
        (case read_section env fdset x s of
           Some (Returned s1) \<Rightarrow>
             (case write_section env fdset x s1 of
                Some (Returned s2) \<Rightarrow> Some (except_section env fdset x s2)
              | r \<Rightarrow> r)
         | r \<Rightarrow> r))"

text \<open>
  The scan \<open>for (int fd = 3; fd < watch_.size(); ++fd)\<close>, from descriptor \<open>x\<close> on.  The size
  of the table is read again before every round.
\<close>

partial_function (option) scan :: "Env \<Rightarrow> Select \<Rightarrow> fd \<Rightarrow> state \<Rightarrow> state outcome option" where
  "scan env fdset x s =
     (if x < length (watch (fst s)) then
        (case dispatch_fd env fdset x s of
           Some (Returned s') \<Rightarrow> scan env fdset (x + 1) s'
         | r \<Rightarrow> r)
      else Some (Returned s))"

definition DispatchOne :: "Env \<Rightarrow> int \<Rightarrow> state \<Rightarrow> state outcome option" where
  "DispatchOne env timeout s =
     (if self_verify env \<and> \<not> verify (fst s) then Some Aborted
      else
        (let tr = (if debug env then snd s @ [LogSelect (debug_line (fst s))] else snd s)
         in case select_timeout env (select (fst s)) timeout of
              (r, errno, fdset) \<Rightarrow>
                if r < 0 then
                  if errno = EINTR env then Some (Returned (fst s, tr @ [LogInterrupted]))
                  else Some (Threw (Exception ''Dispatch::Select() failed!'' errno) (fst s, tr))
                else if r = 0 then Some (Returned (fst s, tr))
                else scan env fdset 3 (fst s, tr)))"

section \<open>The self-pipe\<close>

text \<open>
  What \<open>Interrupt\<close> and \<open>SelfPipeCallback\<close> do that is visible from outside: a call of
  \<open>write(self_pipe_[1], this, 1)\<close> or of \<open>read(self_pipe_[0], ...)\<close> with the value it
  returned, and the line given to the logging facility after a write of zero bytes.
\<close>

datatype pipe_event = PipeWrite int | LogWakeUp | PipeRead int

text \<open>
  The operating system is a parameter: \<open>wr n\<close> is what call number \<open>n\<close> of \<open>write\<close> on the
  pipe returns, counted from 0 within one call of \<open>Interrupt\<close>.  The loop
  \<open>while ((wb = write(...)) == 0)\<close> need not end; it yields the last value of \<open>wb\<close>.
\<close>

partial_function (option) Interrupt_loop ::
  "(nat \<Rightarrow> int) \<Rightarrow> nat \<Rightarrow> pipe_event list \<Rightarrow> (int \<times> pipe_event list) option" where
  "Interrupt_loop wr n tr =
     (if wr n = 0 then Interrupt_loop wr (n + 1) (tr @ [PipeWrite 0, LogWakeUp])
      else Some (wr n, tr @ [PipeWrite (wr n)]))"

text \<open>
  Modelled from the spec: the macro \<open>die_unless\<close>, which is not in the source file, ends
  the process when its condition fails (a process-level assertion failure).
\<close>

definition Interrupt ::
  "(nat \<Rightarrow> int) \<Rightarrow> Dispatcher \<times> pipe_event list \<Rightarrow>
   (Dispatcher \<times> pipe_event list) outcome option" where
  "Interrupt wr s =
     (case Interrupt_loop wr 0 (snd s) of
        None \<Rightarrow> None
      | Some (wb, tr) \<Rightarrow> if wb = 1 then Some (Returned (fst s, tr)) else Some Aborted)"

text \<open>
  \<open>rd n\<close> is what call number \<open>n\<close> of \<open>read\<close> on the pipe returns within one call of
  \<open>SelfPipeCallback\<close>.  The loop \<open>while (read(...) > 0)\<close> need not end either.
\<close>

partial_function (option) SelfPipeCallback_loop ::
  "(nat \<Rightarrow> int) \<Rightarrow> nat \<Rightarrow> pipe_event list \<Rightarrow> pipe_event list option" where
  "SelfPipeCallback_loop rd n tr =
     (if rd n > 0 then SelfPipeCallback_loop rd (n + 1) (tr @ [PipeRead (rd n)])
      else Some (tr @ [PipeRead (rd n)]))"

definition SelfPipeCallback ::
  "(nat \<Rightarrow> int) \<Rightarrow> Dispatcher \<times> pipe_event list \<Rightarrow>
   (bool \<times> Dispatcher \<times> pipe_event list) option" where
  "SelfPipeCallback rd s =
     (case SelfPipeCallback_loop rd 0 (snd s) of
        None \<Rightarrow> None
      | Some tr \<Rightarrow> Some (True, fst s, tr))"

section \<open>Notions used to state the properties\<close>

text \<open>What the dispatcher holds about one descriptor: its entry and its three bits.\<close>

definition entry :: "fd \<Rightarrow> Dispatcher \<Rightarrow> Watch option" where
  "entry x d = (if x < length (watch d) then Some (watch d ! x) else None)"

definition bits :: "fd \<Rightarrow> Dispatcher \<Rightarrow> bool \<times> bool \<times> bool" where
  "bits x d = (InRead (select d) x, InWrite (select d) x, InException (select d) x)"

definition view :: "fd \<Rightarrow> Dispatcher \<Rightarrow> Watch option \<times> bool \<times> bool \<times> bool" where
  "view x d = (entry x d, bits x d)"

text \<open>
  No callback and no default exception policy touches what is held about \<open>x\<close>, once \<open>x\<close>
  has an entry in the table.
\<close>

definition frame :: "Env \<Rightarrow> fd \<Rightarrow> bool" where
  "frame env x =
     ((\<forall>c d. x < length (watch d) \<longrightarrow> view x (snd (call env c d)) = view x d) \<and>
      (\<forall>d. x < length (watch d) \<longrightarrow>
         view x (snd (DefaultExceptionCallback env d)) = view x d))"

text \<open>
  The same for a descriptor \<open>y\<close> beyond the table: no callback and no default exception
  policy gives \<open>y\<close> an entry or touches its bits.
\<close>

definition frame_beyond :: "Env \<Rightarrow> fd \<Rightarrow> bool" where
  "frame_beyond env y =
     ((\<forall>c d. \<not> y < length (watch d) \<longrightarrow> view y (snd (call env c d)) = view y d) \<and>
      (\<forall>d. \<not> y < length (watch d) \<longrightarrow>
         view y (snd (DefaultExceptionCallback env d)) = view y d))"

text \<open>
  Descriptor \<open>y\<close> gives the scan nothing to do: its entry is inactive, or the wait primitive
  has reported it ready for nothing.
\<close>

definition idle :: "Select \<Rightarrow> fd \<Rightarrow> Dispatcher \<Rightarrow> bool" where
  "idle fdset y d =
     (\<not> active (watch d ! y) \<or>
      (\<not> InRead fdset y \<and> \<not> InWrite fdset y \<and> \<not> InException fdset y))"

text \<open>
  Every callback registered in entry \<open>w\<close> returns normally, and \<open>ret\<close> tells what it returns.
\<close>

definition answers :: "Env \<Rightarrow> (cb \<Rightarrow> bool) \<Rightarrow> Watch \<Rightarrow> bool" where
  "answers env ret w =
     (\<forall>c\<in>set (read_cb w) \<union> set (write_cb w) \<union> set_option (except_cb w).
        \<forall>d. fst (call env c d) = Returns (ret c))"

text \<open>
  A summary of what the handling of one descriptor does to what is held about it, for
  callbacks that answer by \<open>ret\<close> and leave the descriptor's own entry and bits alone: the
  callbacks run from a queue and the part of the queue that stays.
\<close>

definition invoked :: "(cb \<Rightarrow> bool) \<Rightarrow> cb list \<Rightarrow> cb list" where
  "invoked ret q = takeWhile (\<lambda>c. \<not> ret c) q @ take 1 (dropWhile (\<lambda>c. \<not> ret c) q)"

definition kept :: "(cb \<Rightarrow> bool) \<Rightarrow> cb list \<Rightarrow> cb list" where
  "kept ret q = dropWhile (\<lambda>c. \<not> ret c) q"

type_synonym held = "Watch \<times> bool \<times> bool \<times> bool"

fun set_queue :: "kind \<Rightarrow> cb list \<Rightarrow> Watch \<Rightarrow> Watch" where
  "set_queue Read q w = w\<lparr>read_cb := q\<rparr>"
| "set_queue Write q w = w\<lparr>write_cb := q\<rparr>"

fun held_read_done :: "held \<Rightarrow> held" where
  "held_read_done (w, r, wr, e) =
     (if read_cb w = [] then
        if write_cb w = [] \<and> except_cb w = None
        then (w\<lparr>active := False\<rparr>, False, False, False)
        else (w, False, wr, e)
      else (w, r, wr, e))"

fun held_write_done :: "held \<Rightarrow> held" where
  "held_write_done (w, r, wr, e) =
     (if write_cb w = [] then
        if read_cb w = [] \<and> except_cb w = None
        then (w\<lparr>active := False\<rparr>, False, False, False)
        else (w, r, False, e)
      else (w, r, wr, e))"

fun serve_read :: "(cb \<Rightarrow> bool) \<Rightarrow> Select \<Rightarrow> fd \<Rightarrow> held \<Rightarrow> held \<times> event list" where
  "serve_read ret fdset x (w, r, wr, e) =
     (if InRead fdset x then
        if read_cb w \<noteq> []
        then (held_read_done (w\<lparr>read_cb := kept ret (read_cb w)\<rparr>, r, wr, e),
              map (Invoke Read x) (invoked ret (read_cb w)))
        else ((w, False, wr, e), [LogNoHandler Read x])
      else ((w, r, wr, e), []))"

fun serve_write :: "(cb \<Rightarrow> bool) \<Rightarrow> Select \<Rightarrow> fd \<Rightarrow> held \<Rightarrow> held \<times> event list" where
  "serve_write ret fdset x (w, r, wr, e) =
     (if InWrite fdset x then
        if write_cb w \<noteq> []
        then (held_write_done (w\<lparr>write_cb := kept ret (write_cb w)\<rparr>, r, wr, e),
              map (Invoke Write x) (invoked ret (write_cb w)))
        else ((w, r, False, e), [LogNoHandler Write x])
      else ((w, r, wr, e), []))"

fun serve_except :: "(cb \<Rightarrow> bool) \<Rightarrow> Select \<Rightarrow> fd \<Rightarrow> held \<Rightarrow> held \<times> event list" where
  "serve_except ret fdset x (w, r, wr, e) =
     (if InException fdset x then
        (case except_cb w of
           Some c \<Rightarrow> ((w, r, wr, e \<and> ret c), [InvokeExcept x c])
         | None \<Rightarrow> ((w, r, wr, e), [InvokeDefault x]))
      else ((w, r, wr, e), []))"

definition serve :: "(cb \<Rightarrow> bool) \<Rightarrow> Select \<Rightarrow> fd \<Rightarrow> held \<Rightarrow> held \<times> event list" where
  "serve ret fdset x h =
     (if \<not> active (fst h) then (h, [])
      else
        (let (h1, e1) = serve_read ret fdset x h;
             (h2, e2) = serve_write ret fdset x h1;
             (h3, e3) = serve_except ret fdset x h2
         in (h3, e1 @ e2 @ e3)))"

fun lift :: "held \<Rightarrow> Watch option \<times> bool \<times> bool \<times> bool" where
  "lift (w, b) = (Some w, b)"

text \<open>
  Every callback and the default exception policy return normally and leave the dispatcher
  as it is.
\<close>

definition calm :: "Env \<Rightarrow> bool" where
  "calm env =
     ((\<forall>c d. \<exists>b. call env c d = (Returns b, d)) \<and>
      (\<forall>d. \<exists>b. DefaultExceptionCallback env d = (Returns b, d)))"

text \<open>
  A relation between the dispatcher before and after that every step taken while descriptor
  \<open>x\<close> is handled respects.
\<close>

definition respected :: "Env \<Rightarrow> fd \<Rightarrow> (Dispatcher \<Rightarrow> Dispatcher \<Rightarrow> bool) \<Rightarrow> bool" where
  "respected env x R =
     ((\<forall>d. R d d) \<and> (\<forall>a b c. R a b \<longrightarrow> R b c \<longrightarrow> R a c) \<and>
      (\<forall>c d. R d (snd (call env c d))) \<and>
      (\<forall>d. R d (snd (DefaultExceptionCallback env d))) \<and>
      (\<forall>d k. x < length (watch d) \<longrightarrow>
         R d (d\<lparr>watch := (watch d)[x := pop_front k (watch d ! x)]\<rparr>)) \<and>
      (\<forall>d. x < length (watch d) \<longrightarrow> R d (read_done x d)) \<and>
      (\<forall>d. x < length (watch d) \<longrightarrow> R d (write_done x d)) \<and>
      (\<forall>d. R d (d\<lparr>select := ClearRead (select d) x\<rparr>)) \<and>
      (\<forall>d. R d (d\<lparr>select := ClearWrite (select d) x\<rparr>)) \<and>
      (\<forall>d. R d (d\<lparr>select := ClearException (select d) x\<rparr>)))"

section \<open>The invariant on interest bits\<close>

fun In :: "kind \<Rightarrow> Select \<Rightarrow> fd \<Rightarrow> bool" where
  "In Read f x = InRead f x"
| "In Write f x = InWrite f x"

fun other :: "kind \<Rightarrow> kind" where
  "other Read = Write"
| "other Write = Read"

text \<open>The interest bit of kind \<open>k\<close> of descriptor \<open>x\<close> is set iff queue \<open>k\<close> of \<open>x\<close> is not empty.\<close>

definition mirror :: "kind \<Rightarrow> Dispatcher \<Rightarrow> fd \<Rightarrow> bool" where
  "mirror k d x = (In k (select d) x \<longleftrightarrow> queue k (watch d ! x) \<noteq> [])"

text \<open>
  Invariant I2 in the words of the spec, for every active descriptor of the table: the read
  interest bit is set iff the read queue is non-empty, the write interest bit is set iff the
  write queue is non-empty, and the exception interest bit is set iff an exception handler
  exists or the descriptor is otherwise active.
\<close>

definition I2 :: "Dispatcher \<Rightarrow> bool" where
  "I2 d =
     list_all (\<lambda>x. if active (watch d ! x)
                    then mirror Read d x \<and> mirror Write d x \<and>
                         (InException (select d) x \<longleftrightarrow>
                            except_cb (watch d ! x) \<noteq> None \<or> active (watch d ! x))
                    else True)
       [0..<length (watch d)]"

text \<open>The part of I2 about the read and the write bits.\<close>

definition I2_rw :: "Dispatcher \<Rightarrow> bool" where
  "I2_rw d =
     list_all (\<lambda>x. if active (watch d ! x) then mirror Read d x \<and> mirror Write d x else True)
       [0..<length (watch d)]"

text \<open>
  What holds while the chain of kind \<open>k\<close> of descriptor \<open>x\<close> is being drained: as \<open>I2_rw\<close>,
  but the bit of kind \<open>k\<close> of \<open>x\<close> may still be set when the queue has just become empty.
\<close>

definition almost :: "kind \<Rightarrow> fd \<Rightarrow> Dispatcher \<Rightarrow> bool" where
  "almost k x d =
     list_all (\<lambda>y. if active (watch d ! y)
                    then if y = x
                         then mirror (other k) d y \<and>
                              (queue k (watch d ! y) \<noteq> [] \<longrightarrow> In k (select d) y)
                         else mirror Read d y \<and> mirror Write d y
                    else True)
       [0..<length (watch d)]"

text \<open>Every callback and the default exception policy keep \<open>I2_rw\<close>.\<close>

definition keeps_I2_rw :: "Env \<Rightarrow> bool" where
  "keeps_I2_rw env =
     ((\<forall>c d. I2_rw d \<longrightarrow> I2_rw (snd (call env c d))) \<and>
      (\<forall>d. I2_rw d \<longrightarrow> I2_rw (snd (DefaultExceptionCallback env d))))"

section \<open>Example dispatchers\<close>

definition no_watch :: Watch where
  "no_watch = \<lparr>active = False, read_cb = [], write_cb = [], except_cb = None\<rparr>"

definition fdsets :: "fd set \<Rightarrow> fd set \<Rightarrow> fd set \<Rightarrow> Select" where
  "fdsets r w e = \<lparr>read_set = r, write_set = w, except_set = e\<rparr>"

text \<open>A default exception policy that throws, and callbacks that only answer.\<close>

definition throwing_policy :: "Dispatcher \<Rightarrow> cb_result \<times> Dispatcher" where
  "throwing_policy d = (Throws (Exception ''SelectDispatcher() exception on socket!'' 0), d)"

definition answering :: "(cb \<Rightarrow> bool) \<Rightarrow> cb \<Rightarrow> Dispatcher \<Rightarrow> cb_result \<times> Dispatcher" where
  "answering ret c d = (Returns (ret c), d)"

text \<open>
  An environment with both flags on, in which the wait primitive answers \<open>res\<close> and the
  callbacks behave as \<open>cbs\<close>.
\<close>

definition example_env ::
  "int \<times> int \<times> Select \<Rightarrow> (cb \<Rightarrow> Dispatcher \<Rightarrow> cb_result \<times> Dispatcher) \<Rightarrow> Env" where
  "example_env res cbs =
     \<lparr>self_verify = True, debug = True, EINTR = 4, select_timeout = (\<lambda>f t. res),
      call = cbs, DefaultExceptionCallback = throwing_policy\<rparr>"

text \<open>Descriptor 3 with one read callback; descriptor 4 registered for reading and writing.\<close>

definition d_two :: Dispatcher where
  "d_two =
     \<lparr>select = fdsets {3, 4} {4} {},
      watch = [no_watch, no_watch, no_watch,
               \<lparr>active = True, read_cb = [0], write_cb = [], except_cb = None\<rparr>,
               \<lparr>active = True, read_cb = [1], write_cb = [2, 3], except_cb = Some 4\<rparr>]\<rparr>"

text \<open>
  Modelled from the spec: \<open>register_read\<close> of the watch table, which is not in the source
  file: grow the table if the descriptor is beyond it, append the callback, mark the entry
  active and set the read interest bit.
\<close>

definition register_read :: "fd \<Rightarrow> cb \<Rightarrow> Dispatcher \<Rightarrow> Dispatcher" where
  "register_read x c d =
     (let t = watch d @ replicate (x + 1 - length (watch d)) no_watch
      in d\<lparr>select := (select d)\<lparr>read_set := insert x (read_set (select d))\<rparr>,
            watch := t[x := (t ! x)\<lparr>active := True, read_cb := read_cb (t ! x) @ [c]\<rparr>]\<rparr>)"

text \<open>
  Three read callbacks on descriptor 3 that return false, false and true; the first one
  also registers a callback for a new descriptor 4, so that the table grows under the scan.
\<close>

definition chain_cbs :: "cb \<Rightarrow> Dispatcher \<Rightarrow> cb_result \<times> Dispatcher" where
  "chain_cbs c d = (if c = 0 then (Returns False, register_read 4 7 d) else (Returns (c = 2), d))"

definition d_chain :: Dispatcher where
  "d_chain =
     \<lparr>select = fdsets {3} {} {},
      watch = [no_watch, no_watch, no_watch,
               \<lparr>active = True, read_cb = [0, 1, 2], write_cb = [], except_cb = None\<rparr>]\<rparr>"

text \<open>Descriptor 3 with a single read callback and nothing else.\<close>

definition d_single :: Dispatcher where
  "d_single =
     \<lparr>select = fdsets {3} {} {3},
      watch = [no_watch, no_watch, no_watch,
               \<lparr>active = True, read_cb = [0], write_cb = [], except_cb = None\<rparr>]\<rparr>"

text \<open>
  Descriptor 3 with its write interest bit set and an empty write queue.  The assertions of
  the self-verification reject this dispatcher, so the example runs with the flag off.
\<close>

definition d_stale :: Dispatcher where
  "d_stale =
     \<lparr>select = fdsets {3} {3} {},
      watch = [no_watch, no_watch, no_watch,
               \<lparr>active = True, read_cb = [0], write_cb = [], except_cb = None\<rparr>]\<rparr>"

definition unchecked_env ::
  "int \<times> int \<times> Select \<Rightarrow> (cb \<Rightarrow> Dispatcher \<Rightarrow> cb_result \<times> Dispatcher) \<Rightarrow> Env" where
  "unchecked_env res cbs = (example_env res cbs)\<lparr>self_verify := False\<rparr>"

text \<open>
  Descriptor 3 with a read callback and an exception handler, all three parts of I2 holding.
\<close>

text \<open>The read callback 0 asks to be kept; the exception handler 1 returns false.\<close>

definition keep_reader :: "cb \<Rightarrow> bool" where
  "keep_reader c = (c = 0)"

definition d_exc :: Dispatcher where
  "d_exc =
     \<lparr>select = fdsets {3} {} {3},
      watch = [no_watch, no_watch, no_watch,
               \<lparr>active = True, read_cb = [0], write_cb = [], except_cb = Some 1\<rparr>]\<rparr>"

text \<open>
  Standard input registered for reading, next to descriptor 3 with one read callback.
\<close>

definition d_stdin :: Dispatcher where
  "d_stdin =
     \<lparr>select = fdsets {0, 3} {} {},
      watch = [\<lparr>active = True, read_cb = [9], write_cb = [], except_cb = None\<rparr>,
               no_watch, no_watch,
               \<lparr>active = True, read_cb = [0], write_cb = [], except_cb = None\<rparr>]\<rparr>"

section \<open>Induction along the two loops\<close>

lemma drain_induct [consumes 1, case_names empty throws keep pop undef]:
  assumes run: "drain env k x s = Some out"
    and empty: "\<And>s. queue k (watch (fst s) ! x) = [] \<Longrightarrow> P s (Returned s)"
    and throws: "\<And>s c q e d'. queue k (watch (fst s) ! x) = c # q \<Longrightarrow>
        call env c (fst s) = (Throws e, d') \<Longrightarrow> P s (Threw e (d', snd s @ [Invoke k x c]))"
    and keep: "\<And>s c q d'. queue k (watch (fst s) ! x) = c # q \<Longrightarrow>
        call env c (fst s) = (Returns True, d') \<Longrightarrow> P s (Returned (d', snd s @ [Invoke k x c]))"
    and pop: "\<And>s c q d' out. queue k (watch (fst s) ! x) = c # q \<Longrightarrow>
        call env c (fst s) = (Returns False, d') \<Longrightarrow> x < length (watch d') \<Longrightarrow>
        queue k (watch d' ! x) \<noteq> [] \<Longrightarrow>
        P (d'\<lparr>watch := (watch d')[x := pop_front k (watch d' ! x)]\<rparr>, snd s @ [Invoke k x c]) out \<Longrightarrow>
        P s out"
    and undef: "\<And>s c q d'. queue k (watch (fst s) ! x) = c # q \<Longrightarrow>
        call env c (fst s) = (Returns False, d') \<Longrightarrow>
        \<not> (x < length (watch d') \<and> queue k (watch d' ! x) \<noteq> []) \<Longrightarrow> P s Undefined"
  shows "P s out"
proof -
  define Q where "Q = (\<lambda>e k' x' s out. e = env \<longrightarrow> k' = k \<longrightarrow> x' = x \<longrightarrow> P s out)"
  have "Q env k x s out"
  proof (rule drain.raw_induct[where P = Q and xa = "(((env, k), x), s)" and y = out, unfolded prod.case], goal_cases)
    case 2
    show ?case by (rule run)
  next
    case (1 f e k' x' s' o')
    note IH = 1(1) and body = 1(2)
    show "Q e k' x' s' o'"
      unfolding Q_def
    proof (intro impI)
      assume eq: "e = env" "k' = k" "x' = x"
      show "P s' o'"
      proof (cases "queue k (watch (fst s') ! x)")
        case Nil
        with body eq have "o' = Returned s'" by simp
        with empty[OF Nil] show ?thesis by simp
      next
        case (Cons c q)
        obtain r d' where cd: "call env c (fst s') = (r, d')" by (cases "call env c (fst s')")
        show ?thesis
        proof (cases r)
          case (Throws ex)
          with body eq Cons cd have "o' = Threw ex (d', snd s' @ [Invoke k x c])" by simp
          with throws[OF Cons] cd Throws show ?thesis by simp
        next
          case (Returns b)
          show ?thesis
          proof (cases b)
            case True
            with body eq Cons cd Returns have "o' = Returned (d', snd s' @ [Invoke k x c])" by simp
            with keep[OF Cons] cd Returns True show ?thesis by simp
          next
            case False
            have cd': "call env c (fst s') = (Returns False, d')" using cd Returns False by simp
            show ?thesis
            proof (cases "x < length (watch d') \<and> queue k (watch d' ! x) \<noteq> []")
              case True
              with body eq Cons cd Returns False
              have "f env k x (d'\<lparr>watch := (watch d')[x := pop_front k (watch d' ! x)]\<rparr>,
                       snd s' @ [Invoke k x c]) = Some o'" by simp
              from IH[OF this] have "P (d'\<lparr>watch := (watch d')[x := pop_front k (watch d' ! x)]\<rparr>,
                       snd s' @ [Invoke k x c]) o'" by (simp add: Q_def)
              with pop[OF Cons cd'] True show ?thesis by blast
            next
              case F: False
              with body eq Cons cd Returns False have "o' = Undefined" by (simp split: if_splits)
              with undef[OF Cons cd' F] show ?thesis by simp
            qed
          qed
        qed
      qed
    qed
  qed
  then show ?thesis by (simp add: Q_def)
qed

lemma scan_induct [consumes 1, case_names stop round exit]:
  assumes run: "scan env fdset i s = Some out"
    and stop: "\<And>i s. \<not> i < length (watch (fst s)) \<Longrightarrow> P i s (Returned s)"
    and round: "\<And>i s s1 out. i < length (watch (fst s)) \<Longrightarrow>
        dispatch_fd env fdset i s = Some (Returned s1) \<Longrightarrow> P (i + 1) s1 out \<Longrightarrow> P i s out"
    and exit: "\<And>i s out. i < length (watch (fst s)) \<Longrightarrow>
        dispatch_fd env fdset i s = Some out \<Longrightarrow> (\<forall>s1. out \<noteq> Returned s1) \<Longrightarrow> P i s out"
  shows "P i s out"
proof -
  define Q where "Q = (\<lambda>e f' i s out. e = env \<longrightarrow> f' = fdset \<longrightarrow> P i s out)"
  have "Q env fdset i s out"
  proof (rule scan.raw_induct[where P = Q and xa = "(((env, fdset), i), s)" and y = out, unfolded prod.case], goal_cases)
    case 2
    show ?case by (rule run)
  next
    case (1 f e f' j s' o')
    note IH = 1(1) and body = 1(2)
    show "Q e f' j s' o'"
      unfolding Q_def
    proof (intro impI)
      assume eq: "e = env" "f' = fdset"
      show "P j s' o'"
      proof (cases "j < length (watch (fst s'))")
        case False
        with body have "o' = Returned s'" by simp
        with stop[OF False] show ?thesis by simp
      next
        case True
        show ?thesis
        proof (cases "dispatch_fd env fdset j s'")
          case None
          with body True eq show ?thesis by simp
        next
          case (Some r)
          show ?thesis
          proof (cases "\<exists>s1. r = Returned s1")
            case True
            then obtain s1 where r: "r = Returned s1" by blast
            with body \<open>j < length (watch (fst s'))\<close> eq Some
            have "f env fdset (j + 1) s1 = Some o'" by simp
            from IH[OF this] have "P (j + 1) s1 o'" by (simp add: Q_def)
            with round[OF \<open>j < length (watch (fst s'))\<close>] Some r show ?thesis by blast
          next
            case False
            with body \<open>j < length (watch (fst s'))\<close> eq Some have "o' = r"
              by (cases r) auto
            with exit[OF \<open>j < length (watch (fst s'))\<close>] Some False show ?thesis by blast
          qed
        qed
      qed
    qed
  qed
  then show ?thesis by (simp add: Q_def)
qed

section \<open>What one call appends to the trace\<close>

lemma drain_trace:
  assumes "drain env k x s = Some out"
  shows "\<forall>s'. final out = Some s' \<longrightarrow> (\<exists>cs. snd s' = snd s @ map (Invoke k x) cs)"
  using assms
proof (induct rule: drain_induct)
  case (pop s c q d' out)
  then show ?case by (fastforce simp: Cons_eq_map_conv)
qed (auto intro: exI[of _ "[c]" for c])

lemma read_section_trace:
  assumes "read_section env fdset x s = Some out" and "final out = Some s'"
  shows "\<exists>new. snd s' = snd s @ new \<and> (\<forall>e\<in>set new. descr e = Some x \<and> step e = 0)"
proof (cases "InRead fdset x \<and> read_cb (watch (fst s) ! x) \<noteq> []")
  case False
  with assms show ?thesis by (auto simp: read_section_def split: if_splits)
next
  case True
  then obtain o1 where o1: "drain env Read x s = Some o1"
    using assms by (cases "drain env Read x s") (auto simp: read_section_def)
  from drain_trace[OF o1] assms True o1 show ?thesis
    by (cases o1) (fastforce simp: read_section_def split: if_splits)+
qed

lemma write_section_trace:
  assumes "write_section env fdset x s = Some out" and "final out = Some s'"
  shows "\<exists>new. snd s' = snd s @ new \<and> (\<forall>e\<in>set new. descr e = Some x \<and> step e = 1)"
proof (cases "InWrite fdset x \<and> write_cb (watch (fst s) ! x) \<noteq> []")
  case False
  with assms show ?thesis by (auto simp: write_section_def split: if_splits)
next
  case True
  then obtain o1 where o1: "drain env Write x s = Some o1"
    using assms by (cases "drain env Write x s") (auto simp: write_section_def)
  from drain_trace[OF o1] assms True o1 show ?thesis
    by (cases o1) (fastforce simp: write_section_def split: if_splits)+
qed

lemma except_section_trace:
  assumes "final (except_section env fdset x s) = Some s'"
  shows "\<exists>new. snd s' = snd s @ new \<and> (\<forall>e\<in>set new. descr e = Some x \<and> step e = 2)"
  using assms
  by (auto simp: except_section_def split: if_splits option.splits prod.splits cb_result.splits)

lemma sorted_map_const: "\<forall>e\<in>set xs. f e = (c::nat) \<Longrightarrow> sorted (map f xs)"
  by (induct xs) auto

lemma dispatch_fd_trace:
  assumes "dispatch_fd env fdset x s = Some out" and "final out = Some s'"
  shows "\<exists>new. snd s' = snd s @ new \<and> (\<forall>e\<in>set new. descr e = Some x) \<and> sorted (map step new)"
proof (cases "active (watch (fst s) ! x)")
  case False
  with assms show ?thesis by (auto simp: dispatch_fd_def)
next
  case True
  then obtain o1 where o1: "read_section env fdset x s = Some o1"
    using assms by (cases "read_section env fdset x s") (auto simp: dispatch_fd_def)
  show ?thesis
  proof (cases "\<exists>s1. o1 = Returned s1")
    case False
    with assms True o1 have "out = o1" by (cases o1) (auto simp: dispatch_fd_def)
    with read_section_trace[OF o1] assms obtain n1 where
      n1: "snd s' = snd s @ n1" "\<forall>e\<in>set n1. descr e = Some x \<and> step e = 0" by blast
    from n1(2) have "sorted (map step n1)" by (intro sorted_map_const[of _ _ 0]) simp
    with n1 show ?thesis by blast
  next
    case T1: True
    then obtain s1 where s1: "o1 = Returned s1" by blast
    from read_section_trace[OF o1, of s1] s1
    obtain n1 where n1: "snd s1 = snd s @ n1" "\<forall>e\<in>set n1. descr e = Some x \<and> step e = 0"
      by auto
    obtain o2 where o2: "write_section env fdset x s1 = Some o2"
      using assms True o1 s1 by (cases "write_section env fdset x s1") (auto simp: dispatch_fd_def)
    show ?thesis
    proof (cases "\<exists>s2. o2 = Returned s2")
      case False
      with assms True o1 s1 o2 have "out = o2" by (cases o2) (auto simp: dispatch_fd_def)
      with write_section_trace[OF o2] assms
      obtain n2 where n2: "snd s' = snd s1 @ n2" "\<forall>e\<in>set n2. descr e = Some x \<and> step e = 1"
        by blast
      have "sorted (map step n1)" using n1(2) by (intro sorted_map_const[of _ _ 0]) simp
      moreover have "sorted (map step n2)" using n2(2) by (intro sorted_map_const[of _ _ 1]) simp
      ultimately have "sorted (map step (n1 @ n2))"
        using n1(2) n2(2) by (auto simp: sorted_append)
      with n1 n2 show ?thesis by (intro exI[of _ "n1 @ n2"]) auto
    next
      case T2: True
      then obtain s2 where s2: "o2 = Returned s2" by blast
      from write_section_trace[OF o2, of s2] s2
      obtain n2 where n2: "snd s2 = snd s1 @ n2" "\<forall>e\<in>set n2. descr e = Some x \<and> step e = 1"
        by auto
      from assms True o1 s1 o2 s2 have "out = except_section env fdset x s2"
        by (auto simp: dispatch_fd_def)
      with except_section_trace[of env fdset x s2 s'] assms
      obtain n3 where n3: "snd s' = snd s2 @ n3" "\<forall>e\<in>set n3. descr e = Some x \<and> step e = 2"
        by blast
      have "sorted (map step n1)" using n1(2) by (intro sorted_map_const[of _ _ 0]) simp
      moreover have "sorted (map step n2)" using n2(2) by (intro sorted_map_const[of _ _ 1]) simp
      moreover have "sorted (map step n3)" using n3(2) by (intro sorted_map_const[of _ _ 2]) simp
      ultimately have "sorted (map step (n1 @ n2 @ n3))"
        using n1(2) n2(2) n3(2) by (auto simp: sorted_append)
      with n1 n2 n3 show ?thesis by (intro exI[of _ "n1 @ n2 @ n3"]) auto
    qed
  qed
qed

lemma sorted_key_same_descr:
  assumes "\<forall>e\<in>set new. descr e = Some x" and "sorted (map step new)"
  shows "sorted (map key new)"
  using assms by (induct new) (auto simp: key_def)

lemma scan_trace:
  assumes "scan env fdset i s = Some out"
  shows "\<forall>s'. final out = Some s' \<longrightarrow>
           (\<exists>new. snd s' = snd s @ new \<and> sorted (map key new) \<and>
                   (\<forall>e\<in>set new. \<exists>x\<ge>i. descr e = Some x))"
  using assms
proof (induct rule: scan_induct)
  case (stop i s)
  then show ?case by simp
next
  case (round i s s1 out)
  show ?case
  proof (intro allI impI)
    fix s' assume f: "final out = Some s'"
    from dispatch_fd_trace[OF round(2)] obtain n1 where
      n1: "snd s1 = snd s @ n1" "\<forall>e\<in>set n1. descr e = Some i" "sorted (map step n1)" by auto
    from round(3) f obtain n2 where
      n2: "snd s' = snd s1 @ n2" "sorted (map key n2)" "\<forall>e\<in>set n2. \<exists>x\<ge>i + 1. descr e = Some x"
      by blast
    have a: "sorted (map key n1)" by (rule sorted_key_same_descr[OF n1(2) n1(3)])
    have "\<forall>a\<in>set n1. \<forall>b\<in>set n2. key a \<le> key b"
      using n1(2) n2(3) by (fastforce simp: key_def)
    with a n2(2) have "sorted (map key (n1 @ n2))" by (auto simp: sorted_append)
    moreover have "\<forall>e\<in>set (n1 @ n2). \<exists>x\<ge>i. descr e = Some x"
      using n1(2) n2(3) by fastforce
    ultimately show "\<exists>new. snd s' = snd s @ new \<and> sorted (map key new) \<and>
                   (\<forall>e\<in>set new. \<exists>x\<ge>i. descr e = Some x)"
      using n1(1) n2(1) by (intro exI[of _ "n1 @ n2"]) simp
  qed
next
  case (exit i s out)
  show ?case
  proof (intro allI impI)
    fix s' assume f: "final out = Some s'"
    from dispatch_fd_trace[OF exit(2) f] obtain n1 where
      n1: "snd s' = snd s @ n1" "\<forall>e\<in>set n1. descr e = Some i" "sorted (map step n1)" by auto
    from sorted_key_same_descr[OF n1(2) n1(3)] n1
    show "\<exists>new. snd s' = snd s @ new \<and> sorted (map key new) \<and>
                   (\<forall>e\<in>set new. \<exists>x\<ge>i. descr e = Some x)"
      by (intro exI[of _ n1]) auto
  qed
qed

section \<open>Relations respected by every step\<close>

lemma drain_rel:
  assumes "respected env x R" and "drain env k x s = Some out"
  shows "\<forall>s'. final out = Some s' \<longrightarrow> R (fst s) (fst s')"
  using assms(2)
proof (induct rule: drain_induct)
  case (empty s)
  with assms(1) show ?case by (simp add: respected_def)
next
  case (throws s c q e d')
  have "R (fst s) (snd (call env c (fst s)))" using assms(1) by (simp add: respected_def)
  with throws show ?case by simp
next
  case (keep s c q d')
  have "R (fst s) (snd (call env c (fst s)))" using assms(1) by (simp add: respected_def)
  with keep show ?case by simp
next
  case (pop s c q d' out)
  have 1: "R (fst s) d'" using assms(1) pop(2)
    by (metis respected_def snd_conv)
  have 2: "R d' (d'\<lparr>watch := (watch d')[x := pop_front k (watch d' ! x)]\<rparr>)"
    using assms(1) pop(3) by (simp add: respected_def)
  have tr: "\<And>a b c. R a b \<Longrightarrow> R b c \<Longrightarrow> R a c" using assms(1) unfolding respected_def by blast
  show ?case using pop(5) 1 2 tr by (metis fst_conv)
next
  case (undef s c q d')
  then show ?case by simp
qed

lemma read_section_rel:
  assumes "respected env x R" and "read_section env fdset x s = Some out" and "final out = Some s'"
  shows "R (fst s) (fst s')"
proof (cases "InRead fdset x \<and> read_cb (watch (fst s) ! x) \<noteq> []")
  case False
  with assms show ?thesis by (auto simp: read_section_def respected_def split: if_splits)
next
  case True
  then obtain o1 where o1: "drain env Read x s = Some o1"
    using assms by (cases "drain env Read x s") (auto simp: read_section_def)
  have tr: "\<And>a b c. R a b \<Longrightarrow> R b c \<Longrightarrow> R a c" using assms(1) unfolding respected_def by blast
  have rd: "\<And>d. x < length (watch d) \<Longrightarrow> R d (read_done x d)"
    using assms(1) unfolding respected_def by blast
  show ?thesis
  proof (cases o1)
    case (Returned s1)
    with drain_rel[OF assms(1) o1] have 1: "R (fst s) (fst s1)" by simp
    from assms(2,3) True o1 Returned have "x < length (watch (fst s1))" "fst s' = read_done x (fst s1)"
      by (auto simp: read_section_def split: if_splits prod.splits)
    with rd[of "fst s1"] 1 show ?thesis by (auto intro: tr)
  next
    case (Threw e s1)
    with assms(2,3) True o1 have "s' = s1" by (auto simp: read_section_def)
    with drain_rel[OF assms(1) o1] Threw show ?thesis by simp
  next
    case Aborted
    with assms(2,3) True o1 show ?thesis by (auto simp: read_section_def)
  next
    case Undefined
    with assms(2,3) True o1 show ?thesis by (auto simp: read_section_def)
  qed
qed

lemma write_section_rel:
  assumes "respected env x R" and "write_section env fdset x s = Some out" and "final out = Some s'"
  shows "R (fst s) (fst s')"
proof (cases "InWrite fdset x \<and> write_cb (watch (fst s) ! x) \<noteq> []")
  case False
  with assms show ?thesis by (auto simp: write_section_def respected_def split: if_splits)
next
  case True
  then obtain o1 where o1: "drain env Write x s = Some o1"
    using assms by (cases "drain env Write x s") (auto simp: write_section_def)
  have tr: "\<And>a b c. R a b \<Longrightarrow> R b c \<Longrightarrow> R a c" using assms(1) unfolding respected_def by blast
  have rd: "\<And>d. x < length (watch d) \<Longrightarrow> R d (write_done x d)"
    using assms(1) unfolding respected_def by blast
  show ?thesis
  proof (cases o1)
    case (Returned s1)
    with drain_rel[OF assms(1) o1] have 1: "R (fst s) (fst s1)" by simp
    from assms(2,3) True o1 Returned have "x < length (watch (fst s1))" "fst s' = write_done x (fst s1)"
      by (auto simp: write_section_def split: if_splits prod.splits)
    with rd[of "fst s1"] 1 show ?thesis by (auto intro: tr)
  next
    case (Threw e s1)
    with assms(2,3) True o1 have "s' = s1" by (auto simp: write_section_def)
    with drain_rel[OF assms(1) o1] Threw show ?thesis by simp
  next
    case Aborted
    with assms(2,3) True o1 show ?thesis by (auto simp: write_section_def)
  next
    case Undefined
    with assms(2,3) True o1 show ?thesis by (auto simp: write_section_def)
  qed
qed

lemma except_section_rel:
  assumes "respected env x R" and "final (except_section env fdset x s) = Some s'"
  shows "R (fst s) (fst s')"
proof -
  have tr: "\<And>a b c. R a b \<Longrightarrow> R b c \<Longrightarrow> R a c" using assms(1) unfolding respected_def by blast
  have c: "\<And>c d. R d (snd (call env c d))" using assms(1) unfolding respected_def by blast
  have df: "\<And>d. R d (snd (DefaultExceptionCallback env d))"
    using assms(1) unfolding respected_def by blast
  have ce: "\<And>d. R d (d\<lparr>select := ClearException (select d) x\<rparr>)"
    using assms(1) unfolding respected_def by blast
  have r: "R (fst s) (fst s)" using assms(1) unfolding respected_def by blast
  show ?thesis
  proof (cases "InException fdset x")
    case False
    with assms(2) r show ?thesis by (simp add: except_section_def)
  next
    case True
    show ?thesis
    proof (cases "except_cb (watch (fst s) ! x)")
      case None
      obtain q d' where q: "DefaultExceptionCallback env (fst s) = (q, d')"
        by (cases "DefaultExceptionCallback env (fst s)")
      with df[of "fst s"] have "R (fst s) d'" by simp
      with assms(2) True None q show ?thesis
        by (cases q) (auto simp: except_section_def)
    next
      case (Some c0)
      obtain q d' where q: "call env c0 (fst s) = (q, d')" by (cases "call env c0 (fst s)")
      with c[of "fst s" c0] have "R (fst s) d'" by simp
      with assms(2) True Some q ce[of d'] show ?thesis
        by (cases q) (auto simp: except_section_def split: if_splits intro: tr)
    qed
  qed
qed

lemma dispatch_fd_rel:
  assumes "respected env x R" and "dispatch_fd env fdset x s = Some out" and "final out = Some s'"
  shows "R (fst s) (fst s')"
proof (cases "active (watch (fst s) ! x)")
  case False
  with assms show ?thesis by (auto simp: dispatch_fd_def respected_def)
next
  case True
  have tr: "\<And>a b c. R a b \<Longrightarrow> R b c \<Longrightarrow> R a c" using assms(1) unfolding respected_def by blast
  obtain o1 where o1: "read_section env fdset x s = Some o1"
    using assms True by (cases "read_section env fdset x s") (auto simp: dispatch_fd_def)
  show ?thesis
  proof (cases "\<exists>s1. o1 = Returned s1")
    case False
    with assms True o1 have "out = o1" by (cases o1) (auto simp: dispatch_fd_def)
    with read_section_rel[OF assms(1) o1] assms show ?thesis by simp
  next
    case T1: True
    then obtain s1 where s1: "o1 = Returned s1" by blast
    from read_section_rel[OF assms(1) o1, of s1] s1 have r1: "R (fst s) (fst s1)" by simp
    obtain o2 where o2: "write_section env fdset x s1 = Some o2"
      using assms True o1 s1 by (cases "write_section env fdset x s1") (auto simp: dispatch_fd_def)
    show ?thesis
    proof (cases "\<exists>s2. o2 = Returned s2")
      case False
      with assms True o1 s1 o2 have "out = o2" by (cases o2) (auto simp: dispatch_fd_def)
      with write_section_rel[OF assms(1) o2] assms r1 show ?thesis by (auto intro: tr)
    next
      case T2: True
      then obtain s2 where s2: "o2 = Returned s2" by blast
      from write_section_rel[OF assms(1) o2, of s2] s2 have r2: "R (fst s1) (fst s2)" by simp
      from assms True o1 s1 o2 s2 have "out = except_section env fdset x s2"
        by (auto simp: dispatch_fd_def)
      with except_section_rel[OF assms(1), of fdset s2 s'] assms
      have "R (fst s2) (fst s')" by simp
      with r1 r2 show ?thesis by (auto intro: tr)
    qed
  qed
qed

lemma scan_rel:
  assumes "\<forall>x. respected env x R" and "scan env fdset i s = Some out"
  shows "\<forall>s'. final out = Some s' \<longrightarrow> R (fst s) (fst s')"
  using assms(2)
proof (induct rule: scan_induct)
  case (stop i s)
  with assms(1) show ?case by (simp add: respected_def)
next
  case (round i s s1 out)
  have tr: "\<And>a b c. R a b \<Longrightarrow> R b c \<Longrightarrow> R a c" using assms(1) unfolding respected_def by blast
  from assms(1) have "respected env i R" by simp
  from dispatch_fd_rel[OF this round(2)] have "R (fst s) (fst s1)" by simp
  with round(3) show ?case by (auto intro: tr)
next
  case (exit i s out)
  from assms(1) have "respected env i R" by simp
  from dispatch_fd_rel[OF this exit(2)] show ?case by simp
qed

lemma scan_induct2 [consumes 1, case_names stop round exit]:
  assumes run: "scan env fdset i s = Some out"
    and stop: "\<And>i s. \<not> i < length (watch (fst s)) \<Longrightarrow> P i s (Returned s)"
    and round: "\<And>i s s1 out. i < length (watch (fst s)) \<Longrightarrow>
        dispatch_fd env fdset i s = Some (Returned s1) \<Longrightarrow>
        scan env fdset (i + 1) s1 = Some out \<Longrightarrow> P (i + 1) s1 out \<Longrightarrow> P i s out"
    and exit: "\<And>i s out. i < length (watch (fst s)) \<Longrightarrow>
        dispatch_fd env fdset i s = Some out \<Longrightarrow> (\<forall>s1. out \<noteq> Returned s1) \<Longrightarrow> P i s out"
  shows "P i s out"
proof -
  have "scan env fdset i s = Some out \<and> P i s out"
    using run
  proof (induct rule: scan_induct)
    case (stop i s)
    then show ?case using assms(2) by (subst scan.simps) simp
  next
    case (round i s s1 out)
    then have "scan env fdset i s = Some out" by (subst scan.simps) simp
    with round assms(3) show ?case by blast
  next
    case (exit i s out)
    then have "scan env fdset i s = Some out" by (subst scan.simps) (cases out; simp)
    with exit assms(4) show ?case by blast
  qed
  then show ?thesis by simp
qed

section \<open>Descriptors the scan leaves alone\<close>

lemma view_list_update_other:
  "x \<noteq> y \<Longrightarrow> view y (d\<lparr>watch := (watch d)[x := w]\<rparr>) = view y d"
  by (simp add: view_def entry_def bits_def)

lemma frame_respected:
  assumes "frame env y" and "x \<noteq> y"
  shows "respected env x (\<lambda>d d'. y < length (watch d) \<longrightarrow> view y d' = view y d)"
  using assms
  unfolding respected_def frame_def
  by (auto simp: view_def entry_def bits_def read_done_def write_done_def
      InRead_def InWrite_def InException_def ClearRead_def ClearWrite_def ClearException_def
      split: if_splits)

lemma dispatch_fd_idle:
  assumes "idle fdset y (fst s)"
  shows "dispatch_fd env fdset y s = Some (Returned s)"
  using assms
  by (auto simp: idle_def dispatch_fd_def read_section_def write_section_def
      except_section_def)

lemma idle_view:
  assumes "view y d' = view y d" and "y < length (watch d)"
  shows "idle fdset y d' = idle fdset y d"
  using assms by (auto simp: idle_def view_def entry_def split: if_splits)

lemma view_length:
  assumes "view y d' = view y d" and "y < length (watch d)"
  shows "y < length (watch d')"
  using assms by (auto simp: view_def entry_def split: if_splits)

lemma scan_frame:
  assumes "frame env y" and "scan env fdset i s = Some out"
  shows "y < length (watch (fst s)) \<and> (y < i \<or> idle fdset y (fst s)) \<longrightarrow>
         (\<forall>s'. final out = Some s' \<longrightarrow> view y (fst s') = view y (fst s))"
  using assms(2)
proof (induct rule: scan_induct)
  case (stop i s)
  then show ?case by simp
next
  case (round i s s1 out)
  show ?case
  proof (cases "i = y")
    case True
    show ?thesis
    proof
      assume "y < length (watch (fst s)) \<and> (y < i \<or> idle fdset y (fst s))"
      with True have "idle fdset y (fst s)" "y < length (watch (fst s))" by simp_all
      from dispatch_fd_idle[OF this(1), of env] round(1,2) True have "s1 = s" by simp
      with round(3) True \<open>y < length (watch (fst s))\<close>
      show "\<forall>s'. final out = Some s' \<longrightarrow> view y (fst s') = view y (fst s)"
        by simp
    qed
  next
    case False
    show ?thesis
    proof
      assume a: "y < length (watch (fst s)) \<and> (y < i \<or> idle fdset y (fst s))"
      from dispatch_fd_rel[OF frame_respected[OF assms(1) False] round(2)] a
      have v: "view y (fst s1) = view y (fst s)" by simp
      from view_length[OF v] a have l: "y < length (watch (fst s1))" by simp
      from a False idle_view[OF v, of fdset]
      have "y < i + 1 \<or> idle fdset y (fst s1)" by auto
      with round(3) l v show "\<forall>s'. final out = Some s' \<longrightarrow> view y (fst s') = view y (fst s)"
        by auto
    qed
  qed
next
  case (exit i s out)
  show ?case
  proof (cases "i = y")
    case True
    show ?thesis
    proof
      assume "y < length (watch (fst s)) \<and> (y < i \<or> idle fdset y (fst s))"
      with True have "idle fdset y (fst s)" by simp
      from dispatch_fd_idle[OF this, of env] exit(1,2) True have "out = Returned s" by simp
      with exit(3) have False by blast
      then show "\<forall>s'. final out = Some s' \<longrightarrow> view y (fst s') = view y (fst s)" ..
    qed
  next
    case False
    from dispatch_fd_rel[OF frame_respected[OF assms(1) False] exit(2)]
    show ?thesis by simp
  qed
qed

text \<open>
  When the scan ends by itself, it has handled descriptor \<open>x\<close> exactly once, starting from
  what the dispatcher held about \<open>x\<close> at the beginning.
\<close>

lemma scan_reaches:
  assumes "frame env x" and "scan env fdset i s = Some out"
  shows "i \<le> x \<and> x < length (watch (fst s)) \<longrightarrow>
         (\<forall>s'. out = Returned s' \<longrightarrow>
            (\<exists>s1 s2 n. view x (fst s1) = view x (fst s) \<and> snd s1 = snd s @ n \<and>
               (\<forall>e\<in>set n. descr e \<noteq> Some x) \<and>
               dispatch_fd env fdset x s1 = Some (Returned s2) \<and>
               scan env fdset (x + 1) s2 = Some (Returned s')))"
  using assms(2)
proof (induct rule: scan_induct2)
  case (stop i s)
  then show ?case by auto
next
  case (round i s s1 out)
  show ?case
  proof (cases "i = x")
    case True
    with round(2,3) show ?thesis
      by (intro impI allI exI[of _ s] exI[of _ s1] exI[of _ "[]"]) simp
  next
    case False
    show ?thesis
    proof (intro impI allI)
      fix s' assume a: "i \<le> x \<and> x < length (watch (fst s))" and o: "out = Returned s'"
      from dispatch_fd_rel[OF frame_respected[OF assms(1) False] round(2)] a
      have v: "view x (fst s1) = view x (fst s)" by simp
      with a have len: "x < length (watch (fst s1))"
        by (auto simp: view_def entry_def split: if_splits)
      from dispatch_fd_trace[OF round(2), of s1] obtain n1 where
        n1: "snd s1 = snd s @ n1" "\<forall>e\<in>set n1. descr e = Some i" by auto
      from round(4) a False len o obtain t1 t2 n where
        t: "view x (fst t1) = view x (fst s1)" "snd t1 = snd s1 @ n"
           "\<forall>e\<in>set n. descr e \<noteq> Some x"
           "dispatch_fd env fdset x t1 = Some (Returned t2)"
           "scan env fdset (x + 1) t2 = Some (Returned s')"
        by auto
      show "\<exists>s1 s2 n. view x (fst s1) = view x (fst s) \<and> snd s1 = snd s @ n \<and>
               (\<forall>e\<in>set n. descr e \<noteq> Some x) \<and>
               dispatch_fd env fdset x s1 = Some (Returned s2) \<and>
               scan env fdset (x + 1) s2 = Some (Returned s')"
        using t v n1 False by (intro exI[of _ t1] exI[of _ t2] exI[of _ "n1 @ n"]) auto
    qed
  qed
next
  case (exit i s out)
  then show ?case by simp
qed

section \<open>From DispatchOne to the scan\<close>

lemma DispatchOne_scan:
  assumes "self_verify env \<longrightarrow> verify d"
    and "select_timeout env (select d) t = (r, e, fdset)" and "0 < r"
  shows "DispatchOne env t (d, tr) =
         scan env fdset 3 (d, tr @ (if debug env then [LogSelect (debug_line d)] else []))"
  using assms by (auto simp: DispatchOne_def)

lemma DispatchOne_cases:
  assumes "DispatchOne env t (d, tr) = Some out" and "final out = Some s'"
  obtains (wait) r e fdset where "select_timeout env (select d) t = (r, e, fdset)" "r \<le> 0"
      "fst s' = d" "\<exists>n. snd s' = tr @ n \<and> (\<forall>e\<in>set n. descr e = None)"
  | (scan) r e fdset n where "select_timeout env (select d) t = (r, e, fdset)" "0 < r"
      "scan env fdset 3 (d, tr @ n) = Some out" "\<forall>e\<in>set n. descr e = None"
proof -
  obtain r e fdset where w: "select_timeout env (select d) t = (r, e, fdset)"
    by (cases "select_timeout env (select d) t")
  from assms have v: "self_verify env \<longrightarrow> verify d"
    by (auto simp: DispatchOne_def split: if_splits)
  show ?thesis
  proof (cases "0 < r")
    case True
    from DispatchOne_scan[OF v w True, of tr] assms(1) True w show ?thesis
      by (intro scan[of r e fdset "if debug env then [LogSelect (debug_line d)] else []"]) auto
  next
    case False
    with assms v w show ?thesis
      by (intro wait[of r e fdset]) (auto simp: DispatchOne_def Let_def split: if_splits)
  qed
qed

section \<open>One descriptor under callbacks with fixed answers\<close>

lemma view_Some_iff:
  "view x d = (Some w, b) \<longleftrightarrow> x < length (watch d) \<and> watch d ! x = w \<and> bits x d = b"
  by (auto simp: view_def entry_def split: if_splits)

lemma frame_call:
  assumes "frame env x" and "call env c d = (r, d')" and "x < length (watch d)"
  shows "view x d' = view x d"
  using assms unfolding frame_def by (metis snd_conv)

lemma frame_default:
  assumes "frame env x" and "DefaultExceptionCallback env d = (r, d')" and "x < length (watch d)"
  shows "view x d' = view x d"
  using assms unfolding frame_def by (metis snd_conv)

lemma set_queue_same [simp]: "set_queue k (queue k w) w = w"
  by (cases k) simp_all

lemma set_queue_twice [simp]: "set_queue k q (set_queue k q' w) = set_queue k q w"
  by (cases k) simp_all

lemma pop_front_set_queue: "pop_front k w = set_queue k (tl (queue k w)) w"
  by (cases k) simp_all

lemma view_pop:
  assumes "view x d = (Some w, b)"
  shows "view x (d\<lparr>watch := (watch d)[x := pop_front k (watch d ! x)]\<rparr>) =
         (Some (pop_front k w), b)"
  using assms by (auto simp: view_def entry_def bits_def split: if_splits)

lemma drain_char:
  assumes fr: "frame env x" and run: "drain env k x s = Some out"
  shows "\<forall>w b. view x (fst s) = (Some w, b) \<and>
           (\<forall>c\<in>set (queue k w). \<forall>d. fst (call env c d) = Returns (ret c)) \<longrightarrow>
           (\<exists>d'. out = Returned (d', snd s @ map (Invoke k x) (invoked ret (queue k w))) \<and>
                 view x d' = (Some (set_queue k (kept ret (queue k w)) w), b))"
  using run
proof (induct rule: drain_induct)
  case (empty s)
  show ?case
  proof (intro allI impI)
    fix w b
    assume a: "view x (fst s) = (Some w, b) \<and>
           (\<forall>c\<in>set (queue k w). \<forall>d. fst (call env c d) = Returns (ret c))"
    with empty have q: "queue k w = []" by (auto simp: view_Some_iff)
    with set_queue_same[of k w] have "set_queue k [] w = w" by simp
    with a q show "\<exists>d'. Returned s = Returned (d', snd s @ map (Invoke k x) (invoked ret (queue k w))) \<and>
            view x d' = (Some (set_queue k (kept ret (queue k w)) w), b)"
      by (intro exI[of _ "fst s"]) (simp add: invoked_def kept_def)
  qed
next
  case (throws s c q e d')
  show ?case
  proof (intro allI impI)
    fix w b
    assume a: "view x (fst s) = (Some w, b) \<and>
           (\<forall>c\<in>set (queue k w). \<forall>d. fst (call env c d) = Returns (ret c))"
    with throws(1) have "fst (call env c (fst s)) = Returns (ret c)"
      by (auto simp: view_Some_iff)
    with throws(2) have False by simp
    then show "\<exists>d'a. Threw e (d', snd s @ [Invoke k x c]) =
            Returned (d'a, snd s @ map (Invoke k x) (invoked ret (queue k w))) \<and>
            view x d'a = (Some (set_queue k (kept ret (queue k w)) w), b)" ..
  qed
next
  case (keep s c q d')
  show ?case
  proof (intro allI impI)
    fix w b
    assume a: "view x (fst s) = (Some w, b) \<and>
           (\<forall>c\<in>set (queue k w). \<forall>d. fst (call env c d) = Returns (ret c))"
    with keep(1) have q: "queue k w = c # q" by (auto simp: view_Some_iff)
    with a have "fst (call env c (fst s)) = Returns (ret c)" by simp
    with keep(2) have r: "ret c" by simp
    from frame_call[OF fr keep(2)] a have v: "view x d' = (Some w, b)" by (simp add: view_Some_iff)
    from q r have "invoked ret (queue k w) = [c]" "kept ret (queue k w) = queue k w"
      by (simp_all add: invoked_def kept_def)
    with v show "\<exists>d'a. Returned (d', snd s @ [Invoke k x c]) =
            Returned (d'a, snd s @ map (Invoke k x) (invoked ret (queue k w))) \<and>
            view x d'a = (Some (set_queue k (kept ret (queue k w)) w), b)"
      by simp
  qed
next
  case (pop s c q d' out)
  show ?case
  proof (intro allI impI)
    fix w b
    assume a: "view x (fst s) = (Some w, b) \<and>
           (\<forall>c\<in>set (queue k w). \<forall>d. fst (call env c d) = Returns (ret c))"
    with pop(1) have q: "queue k w = c # q" by (auto simp: view_Some_iff)
    with a have "fst (call env c (fst s)) = Returns (ret c)" by simp
    with pop(2) have r: "\<not> ret c" by simp
    from frame_call[OF fr pop(2)] a have v: "view x d' = (Some w, b)" by (simp add: view_Some_iff)
    let ?d = "d'\<lparr>watch := (watch d')[x := pop_front k (watch d' ! x)]\<rparr>"
    from view_pop[OF v] have v2: "view x ?d = (Some (set_queue k q w), b)"
      by (simp add: pop_front_set_queue q)
    have qq: "queue k (set_queue k q w) = q" by (cases k) simp_all
    from a q have "\<forall>c\<in>set q. \<forall>d. fst (call env c d) = Returns (ret c)" by simp
    with pop(5) v2 qq obtain d2 where
      d2: "out = Returned (d2, (snd s @ [Invoke k x c]) @ map (Invoke k x) (invoked ret q))"
          "view x d2 = (Some (set_queue k (kept ret q) (set_queue k q w)), b)"
      by fastforce
    from q r have "invoked ret (queue k w) = c # invoked ret q" "kept ret (queue k w) = kept ret q"
      by (simp_all add: invoked_def kept_def)
    with d2 show "\<exists>d'. out = Returned (d', snd s @ map (Invoke k x) (invoked ret (queue k w))) \<and>
            view x d' = (Some (set_queue k (kept ret (queue k w)) w), b)"
      by simp
  qed
next
  case (undef s c q d')
  show ?case
  proof (intro allI impI)
    fix w b
    assume a: "view x (fst s) = (Some w, b) \<and>
           (\<forall>c\<in>set (queue k w). \<forall>d. fst (call env c d) = Returns (ret c))"
    with undef(1) have q: "queue k w = c # q" by (auto simp: view_Some_iff)
    from frame_call[OF fr undef(2)] a have v: "view x d' = (Some w, b)" by (simp add: view_Some_iff)
    with q undef(3) have False by (auto simp: view_Some_iff)
    then show "\<exists>d'. Undefined = Returned (d', snd s @ map (Invoke k x) (invoked ret (queue k w))) \<and>
            view x d' = (Some (set_queue k (kept ret (queue k w)) w), b)" ..
  qed
qed

lemma view_read_done:
  assumes "view x d = (Some w, b)"
  shows "view x (read_done x d) = lift (held_read_done (w, b))"
  using assms
  by (cases b) (auto simp: view_def entry_def bits_def read_done_def
      InRead_def InWrite_def InException_def ClearRead_def ClearWrite_def ClearException_def
      split: if_splits)

lemma view_write_done:
  assumes "view x d = (Some w, b)"
  shows "view x (write_done x d) = lift (held_write_done (w, b))"
  using assms
  by (cases b) (auto simp: view_def entry_def bits_def write_done_def
      InRead_def InWrite_def InException_def ClearRead_def ClearWrite_def ClearException_def
      split: if_splits)

lemma read_section_serve:
  assumes fr: "frame env x" and v: "view x (fst s) = (Some w, b)"
    and an: "\<forall>c\<in>set (read_cb w). \<forall>d. fst (call env c d) = Returns (ret c)"
    and run: "read_section env fdset x s = Some out"
  shows "\<exists>d'. out = Returned (d', snd s @ snd (serve_read ret fdset x (w, b))) \<and>
              view x d' = lift (fst (serve_read ret fdset x (w, b)))"
proof (cases "InRead fdset x \<and> read_cb w \<noteq> []")
  case False
  show ?thesis
  proof (cases "InRead fdset x")
    case F: False
    with run have "out = Returned s" by (simp add: read_section_def)
    with F v show ?thesis by (cases b) (auto intro: exI[of _ "fst s"])
  next
    case T: True
    with False have e: "read_cb w = []" by simp
    from v have w: "watch (fst s) ! x = w" by (simp add: view_Some_iff)
    let ?d = "(fst s)\<lparr>select := ClearRead (select (fst s)) x\<rparr>"
    from run T e w have "out = Returned (?d, snd s @ [LogNoHandler Read x])"
      by (simp add: read_section_def)
    moreover from v T e have "view x ?d = lift (fst (serve_read ret fdset x (w, b)))"
      by (cases b) (auto simp: view_def entry_def bits_def InRead_def InWrite_def
          InException_def ClearRead_def split: if_splits)
    ultimately show ?thesis using T e by (cases b) (auto intro: exI[of _ ?d])
  qed
next
  case True
  from v have w: "watch (fst s) ! x = w" by (simp add: view_Some_iff)
  with True run obtain o1 where o1: "drain env Read x s = Some o1"
    by (cases "drain env Read x s") (auto simp: read_section_def)
  from drain_char[OF fr o1, of ret] v an obtain d1 where
    d1: "o1 = Returned (d1, snd s @ map (Invoke Read x) (invoked ret (read_cb w)))"
        "view x d1 = (Some (w\<lparr>read_cb := kept ret (read_cb w)\<rparr>), b)"
    by fastforce
  from d1(2) have len: "x < length (watch d1)" by (simp add: view_Some_iff)
  from run True w o1 d1(1) len have
    "out = Returned (read_done x d1, snd s @ map (Invoke Read x) (invoked ret (read_cb w)))"
    by (simp add: read_section_def)
  with view_read_done[OF d1(2)] True show ?thesis
    by (cases b) simp
qed

lemma write_section_serve:
  assumes fr: "frame env x" and v: "view x (fst s) = (Some w, b)"
    and an: "\<forall>c\<in>set (write_cb w). \<forall>d. fst (call env c d) = Returns (ret c)"
    and run: "write_section env fdset x s = Some out"
  shows "\<exists>d'. out = Returned (d', snd s @ snd (serve_write ret fdset x (w, b))) \<and>
              view x d' = lift (fst (serve_write ret fdset x (w, b)))"
proof (cases "InWrite fdset x \<and> write_cb w \<noteq> []")
  case False
  show ?thesis
  proof (cases "InWrite fdset x")
    case F: False
    with run have "out = Returned s" by (simp add: write_section_def)
    with F v show ?thesis by (cases b) (auto intro: exI[of _ "fst s"])
  next
    case T: True
    with False have e: "write_cb w = []" by simp
    from v have w: "watch (fst s) ! x = w" by (simp add: view_Some_iff)
    let ?d = "(fst s)\<lparr>select := ClearWrite (select (fst s)) x\<rparr>"
    from run T e w have "out = Returned (?d, snd s @ [LogNoHandler Write x])"
      by (simp add: write_section_def)
    moreover from v T e have "view x ?d = lift (fst (serve_write ret fdset x (w, b)))"
      by (cases b) (auto simp: view_def entry_def bits_def InRead_def InWrite_def
          InException_def ClearWrite_def split: if_splits)
    ultimately show ?thesis using T e by (cases b) (auto intro: exI[of _ ?d])
  qed
next
  case True
  from v have w: "watch (fst s) ! x = w" by (simp add: view_Some_iff)
  with True run obtain o1 where o1: "drain env Write x s = Some o1"
    by (cases "drain env Write x s") (auto simp: write_section_def)
  from drain_char[OF fr o1, of ret] v an obtain d1 where
    d1: "o1 = Returned (d1, snd s @ map (Invoke Write x) (invoked ret (write_cb w)))"
        "view x d1 = (Some (w\<lparr>write_cb := kept ret (write_cb w)\<rparr>), b)"
    by fastforce
  from d1(2) have len: "x < length (watch d1)" by (simp add: view_Some_iff)
  from run True w o1 d1(1) len have
    "out = Returned (write_done x d1, snd s @ map (Invoke Write x) (invoked ret (write_cb w)))"
    by (simp add: write_section_def)
  with view_write_done[OF d1(2)] True show ?thesis
    by (cases b) simp
qed

lemma except_section_serve:
  assumes fr: "frame env x" and v: "view x (fst s) = (Some w, b)"
    and an: "\<forall>c\<in>set_option (except_cb w). \<forall>d. fst (call env c d) = Returns (ret c)"
    and run: "except_section env fdset x s = Returned s'"
  shows "snd s' = snd s @ snd (serve_except ret fdset x (w, b)) \<and>
         view x (fst s') = lift (fst (serve_except ret fdset x (w, b)))"
proof (cases "InException fdset x")
  case False
  with v run show ?thesis by (cases b) (auto simp: except_section_def)
next
  case True
  from v have w: "watch (fst s) ! x = w" by (simp add: view_Some_iff)
  show ?thesis
  proof (cases "except_cb w")
    case None
    obtain q d' where q: "DefaultExceptionCallback env (fst s) = (q, d')"
      by (cases "DefaultExceptionCallback env (fst s)")
    from frame_default[OF fr q] v have "view x d' = (Some w, b)" by (simp add: view_Some_iff)
    with run True None w q show ?thesis
      by (cases b; cases q) (auto simp: except_section_def)
  next
    case (Some c)
    obtain q d' where q: "call env c (fst s) = (q, d')" by (cases "call env c (fst s)")
    from an Some have "fst (call env c (fst s)) = Returns (ret c)" by simp
    with q have qr: "q = Returns (ret c)" by simp
    from frame_call[OF fr q] v have "view x d' = (Some w, b)" by (simp add: view_Some_iff)
    with run True Some w q qr show ?thesis
      by (cases b) (auto simp: except_section_def view_def entry_def bits_def
          InException_def ClearException_def InRead_def InWrite_def split: if_splits)
  qed
qed

lemma serve_read_cbs:
  assumes "serve_read ret fdset x (w, b) = ((w1, b1), ev)"
  shows "write_cb w1 = write_cb w \<and> except_cb w1 = except_cb w \<and>
         set (read_cb w1) \<subseteq> set (read_cb w)"
  using assms
  by (cases b) (auto simp: kept_def split: if_splits dest: set_dropWhileD)

lemma serve_write_cbs:
  assumes "serve_write ret fdset x (w, b) = ((w1, b1), ev)"
  shows "read_cb w1 = read_cb w \<and> except_cb w1 = except_cb w \<and>
         set (write_cb w1) \<subseteq> set (write_cb w)"
  using assms
  by (cases b) (auto simp: kept_def split: if_splits dest: set_dropWhileD)

lemma dispatch_fd_serve:
  assumes fr: "frame env x" and v: "view x (fst s) = (Some w, b)"
    and an: "answers env ret w"
    and run: "dispatch_fd env fdset x s = Some (Returned s')"
  shows "snd s' = snd s @ snd (serve ret fdset x (w, b)) \<and>
         view x (fst s') = lift (fst (serve ret fdset x (w, b)))"
proof (cases "active w")
  case False
  with v have "\<not> active (watch (fst s) ! x)" by (simp add: view_Some_iff)
  with run have "s' = s" by (simp add: dispatch_fd_def)
  with False v show ?thesis by (simp add: serve_def)
next
  case True
  with v have act: "active (watch (fst s) ! x)" by (simp add: view_Some_iff)
  obtain w1 b1 e1 where h1: "serve_read ret fdset x (w, b) = ((w1, b1), e1)"
    by (metis surj_pair)
  obtain w2 b2 e2 where h2: "serve_write ret fdset x (w1, b1) = ((w2, b2), e2)"
    by (metis surj_pair)
  obtain w3 b3 e3 where h3: "serve_except ret fdset x (w2, b2) = ((w3, b3), e3)"
    by (metis surj_pair)
  from True h1 h2 h3 have sv: "serve ret fdset x (w, b) = ((w3, b3), e1 @ e2 @ e3)"
    by (simp add: serve_def)
  from an have an1: "\<forall>c\<in>set (read_cb w). \<forall>d. fst (call env c d) = Returns (ret c)"
    by (simp add: answers_def)
  from an serve_read_cbs[OF h1]
  have an2: "\<forall>c\<in>set (write_cb w1). \<forall>d. fst (call env c d) = Returns (ret c)"
    by (simp add: answers_def)
  from an serve_read_cbs[OF h1] serve_write_cbs[OF h2]
  have an3: "\<forall>c\<in>set_option (except_cb w2). \<forall>d. fst (call env c d) = Returns (ret c)"
    by (simp add: answers_def)
  from run act obtain o1 where o1: "read_section env fdset x s = Some o1"
    by (cases "read_section env fdset x s") (auto simp: dispatch_fd_def)
  from read_section_serve[OF fr v an1 o1] h1 obtain d1 where
    d1: "o1 = Returned (d1, snd s @ e1)" "view x d1 = (Some w1, b1)" by auto
  from run act o1 d1(1) obtain o2 where o2: "write_section env fdset x (d1, snd s @ e1) = Some o2"
    by (cases "write_section env fdset x (d1, snd s @ e1)") (auto simp: dispatch_fd_def)
  from write_section_serve[OF fr _ an2 o2] d1(2) h2 obtain d2 where
    d2: "o2 = Returned (d2, (snd s @ e1) @ e2)" "view x d2 = (Some w2, b2)" by auto
  from run act o1 d1(1) o2 d2(1)
  have "except_section env fdset x (d2, (snd s @ e1) @ e2) = Returned s'"
    by (simp add: dispatch_fd_def)
  from except_section_serve[OF fr _ an3 this] d2(2) h3
  have "snd s' = ((snd s @ e1) @ e2) @ e3" "view x (fst s') = (Some w3, b3)" by auto
  with sv show ?thesis by simp
qed

lemma filter_descr_calls:
  "calls k x (filter (\<lambda>e. descr e = Some x) es) = calls k x es"
  by (induct es rule: calls.induct[of _ k x]) auto

lemma DispatchOne_serve:
  assumes fr: "frame env x" and an: "answers env ret w"
    and sv: "self_verify env \<longrightarrow> verify d"
    and wt: "select_timeout env (select d) t = (r, e, fdset)" and pos: "0 < r"
    and x3: "3 \<le> x" and v: "view x d = (Some w, b)"
    and run: "DispatchOne env t (d, tr) = Some (Returned (d', tr'))"
  shows "view x d' = lift (fst (serve ret fdset x (w, b))) \<and>
         (\<exists>new. tr' = tr @ new \<and>
            filter (\<lambda>e. descr e = Some x) new = snd (serve ret fdset x (w, b)))"
proof -
  let ?dbg = "if debug env then [LogSelect (debug_line d)] else []"
  from DispatchOne_scan[OF sv wt pos, of tr] run
  have sc: "scan env fdset 3 (d, tr @ ?dbg) = Some (Returned (d', tr'))" by simp
  from v have len: "x < length (watch d)" by (simp add: view_Some_iff)
  from scan_reaches[OF fr sc] x3 len obtain s1 s2 n where
    r: "view x (fst s1) = view x d" "snd s1 = (tr @ ?dbg) @ n"
       "\<forall>e\<in>set n. descr e \<noteq> Some x"
       "dispatch_fd env fdset x s1 = Some (Returned s2)"
       "scan env fdset (x + 1) s2 = Some (Returned (d', tr'))"
    by auto
  let ?ev = "snd (serve ret fdset x (w, b))"
  from dispatch_fd_serve[OF fr _ an r(4)] r(1) v
  have s2: "snd s2 = snd s1 @ ?ev" "view x (fst s2) = lift (fst (serve ret fdset x (w, b)))"
    by auto
  from dispatch_fd_trace[OF r(4), of s2] s2(1) have ev: "\<forall>e\<in>set ?ev. descr e = Some x"
    by auto
  from s2(2) have "x < length (watch (fst s2))"
    by (cases "fst (serve ret fdset x (w, b))") (simp add: view_Some_iff)
  with scan_frame[OF fr r(5)] have "view x d' = view x (fst s2)" by simp
  with s2(2) have 1: "view x d' = lift (fst (serve ret fdset x (w, b)))" by simp
  from scan_trace[OF r(5)] obtain n2 where
    n2: "tr' = snd s2 @ n2" "\<forall>e\<in>set n2. \<exists>y\<ge>x + 1. descr e = Some y" by auto
  have f0: "filter (\<lambda>e. descr e = Some x) ?dbg = []" by simp
  have f1: "filter (\<lambda>e. descr e = Some x) n = []" using r(3) by (simp add: filter_empty_conv)
  have f2: "filter (\<lambda>e. descr e = Some x) ?ev = ?ev" using ev by (simp add: filter_id_conv)
  have f3: "filter (\<lambda>e. descr e = Some x) n2 = []" using n2(2) by (fastforce simp: filter_empty_conv)
  have "tr' = tr @ (?dbg @ n @ ?ev @ n2)" using n2(1) s2(1) r(2) by simp
  moreover have "filter (\<lambda>e. descr e = Some x) (?dbg @ n @ ?ev @ n2) = ?ev"
    using f0 f1 f2 f3 by (simp del: filter.simps)
  ultimately show ?thesis using 1 by blast
qed

section \<open>The outcome of the wait\<close>

text \<open>
  Claim C1.  Provided the assertions of the self-verification, which come before the wait,
  hold: when the wait primitive returns a negative value and \<open>errno\<close> is \<open>EINTR\<close>,
  \<open>DispatchOne\<close> writes a log line and returns, with the table and the interest set as
  they were; when it returns another negative value, \<open>DispatchOne\<close> throws an exception that
  carries \<open>errno\<close>; when it returns zero, \<open>DispatchOne\<close> returns at once, having invoked no
  callback and changed nothing.  (With the debug flag on, the line about the interest set
  is written before the wait in all three cases.)
\<close>

theorem DispatchOne_wait_result:
  assumes "self_verify env \<longrightarrow> verify d"
    and "select_timeout env (select d) t = (r, e, fdset)"
  shows "(r < 0 \<and> e = EINTR env \<longrightarrow>
            DispatchOne env t (d, tr) =
            Some (Returned (d, tr @ (if debug env then [LogSelect (debug_line d)] else []) @
                               [LogInterrupted]))) \<and>
         (r < 0 \<and> e \<noteq> EINTR env \<longrightarrow>
            DispatchOne env t (d, tr) =
            Some (Threw (Exception ''Dispatch::Select() failed!'' e)
                    (d, tr @ (if debug env then [LogSelect (debug_line d)] else [])))) \<and>
         (r = 0 \<longrightarrow>
            DispatchOne env t (d, tr) =
            Some (Returned (d, tr @ (if debug env then [LogSelect (debug_line d)] else []))))"
  using assms by (auto simp: DispatchOne_def)

lemma verify_d_two: "verify d_two"
  by (simp add: verify_def d_two_def fdsets_def no_watch_def InRead_def InWrite_def upt_rec)

lemma debug_line_d_two:
  "debug_line d_two = [(CHR ''r'', 3), (CHR ''r'', 4), (CHR ''w'', 4)]"
  by (simp add: debug_line_def d_two_def fdsets_def no_watch_def InRead_def InWrite_def
      InException_def upt_rec)

theorem DispatchOne_wait_result_witness:
  "DispatchOne (example_env (- 1, 4, fdsets {} {} {}) (answering (\<lambda>c. False))) 100 (d_two, []) =
     Some (Returned (d_two, [LogSelect [(CHR ''r'', 3), (CHR ''r'', 4), (CHR ''w'', 4)],
                             LogInterrupted])) \<and>
   DispatchOne (example_env (- 1, 9, fdsets {} {} {}) (answering (\<lambda>c. False))) 100 (d_two, []) =
     Some (Threw (Exception ''Dispatch::Select() failed!'' 9)
             (d_two, [LogSelect [(CHR ''r'', 3), (CHR ''r'', 4), (CHR ''w'', 4)]])) \<and>
   DispatchOne (example_env (0, 0, fdsets {} {} {}) (answering (\<lambda>c. False))) 100 (d_two, []) =
     Some (Returned (d_two, [LogSelect [(CHR ''r'', 3), (CHR ''r'', 4), (CHR ''w'', 4)]]))"
  using
    DispatchOne_wait_result[of "example_env (- 1, 4, fdsets {} {} {}) (answering (\<lambda>c. False))"
      d_two 100 "- 1" 4 "fdsets {} {} {}" "[]"]
    DispatchOne_wait_result[of "example_env (- 1, 9, fdsets {} {} {}) (answering (\<lambda>c. False))"
      d_two 100 "- 1" 9 "fdsets {} {} {}" "[]"]
    DispatchOne_wait_result[of "example_env (0, 0, fdsets {} {} {}) (answering (\<lambda>c. False))"
      d_two 100 0 0 "fdsets {} {} {}" "[]"]
  by (simp add: example_env_def verify_d_two debug_line_d_two)

section \<open>The order of the scan\<close>

text \<open>
  Claim C7.  Whatever the callbacks do, the events of one call of \<open>DispatchOne\<close> come in
  ascending order of descriptor and, for one descriptor, read chain before write chain
  before exception handler (the key of an event is the pair of its descriptor and its
  step, compared lexicographically); no event is about a descriptor below 3; and what the
  dispatcher holds about a descriptor below 3, entry and interest bits, is as before
  unless a callback changes it.
\<close>

theorem DispatchOne_order:
  assumes "DispatchOne env t s = Some out" and "final out = Some s'"
  shows "(\<exists>new. snd s' = snd s @ new \<and> sorted (map key new) \<and>
            (\<forall>e\<in>set new. \<forall>x. descr e = Some x \<longrightarrow> 3 \<le> x)) \<and>
         (\<forall>y<3. frame env y \<and> y < length (watch (fst s)) \<longrightarrow>
            view y (fst s') = view y (fst s))"
proof -
  obtain d tr where s: "s = (d, tr)" by (cases s)
  from assms(1)[unfolded s] assms(2) show ?thesis
  proof (cases rule: DispatchOne_cases)
    case (wait r e fdset)
    then obtain n where n: "snd s' = tr @ n" "\<forall>e\<in>set n. descr e = None" by blast
    from n(2) have "\<forall>e\<in>set n. key e = (0, 0)"
    proof (intro ballI)
      fix e assume "e \<in> set n"
      with n(2) have "descr e = None" by simp
      then show "key e = (0, 0)" by (cases e) (simp_all add: key_def)
    qed
    then have "sorted (map key n)" by (induct n) auto
    with n have "\<exists>new. snd s' = snd s @ new \<and> sorted (map key new) \<and>
            (\<forall>e\<in>set new. \<forall>x. descr e = Some x \<longrightarrow> 3 \<le> x)"
      using s by (intro exI[of _ n]) auto
    with wait(3) s show ?thesis by simp
  next
    case (scan r e fdset n)
    from scan_trace[OF scan(3)] assms(2) obtain n2 where
      n2: "snd s' = (tr @ n) @ n2" "sorted (map key n2)" "\<forall>e\<in>set n2. \<exists>x\<ge>3. descr e = Some x"
      by auto
    have k0: "\<forall>e\<in>set n. key e = (0, 0)"
    proof (intro ballI)
      fix e assume "e \<in> set n"
      with scan(4) have "descr e = None" by simp
      then show "key e = (0, 0)" by (cases e) (simp_all add: key_def)
    qed
    then have "sorted (map key n)" by (induct n) auto
    moreover have "\<forall>a\<in>set n. \<forall>b\<in>set n2. key a \<le> key b"
      using k0 n2(3) by (fastforce simp: key_def)
    ultimately have "sorted (map key (n @ n2))" using n2(2) by (auto simp: sorted_append)
    moreover have "\<forall>e\<in>set (n @ n2). \<forall>x. descr e = Some x \<longrightarrow> 3 \<le> x"
      using scan(4) n2(3) by fastforce
    ultimately have 1: "\<exists>new. snd s' = snd s @ new \<and> sorted (map key new) \<and>
            (\<forall>e\<in>set new. \<forall>x. descr e = Some x \<longrightarrow> 3 \<le> x)"
      using n2(1) s by (intro exI[of _ "n @ n2"]) simp
    have 2: "\<forall>y<3. frame env y \<and> y < length (watch (fst s)) \<longrightarrow>
            view y (fst s') = view y (fst s)"
    proof (intro allI impI)
      fix y :: nat assume y: "y < 3" and f: "frame env y \<and> y < length (watch (fst s))"
      from f have fr: "frame env y" by simp
      from scan_frame[OF fr scan(3)] y f s assms(2)
      show "view y (fst s') = view y (fst s)" by simp
    qed
    from 1 2 show ?thesis by simp
  qed
qed

lemmas run_simps =
  DispatchOne_def scan.simps dispatch_fd_def read_section_def write_section_def
  except_section_def drain.simps read_done_def write_done_def verify_def debug_line_def
  InRead_def InWrite_def InException_def ClearRead_def ClearWrite_def ClearException_def
  example_env_def answering_def throwing_policy_def fdsets_def no_watch_def upt_rec
  insert_Diff_if

lemma run_d_two:
  "DispatchOne (example_env (3, 0, fdsets {3, 4} {4} {4}) (answering (\<lambda>c. c = 3))) 100
     (d_two, []) =
   Some (Returned
     (\<lparr>select = fdsets {} {4} {},
       watch = [no_watch, no_watch, no_watch, no_watch,
                \<lparr>active = True, read_cb = [], write_cb = [3], except_cb = Some 4\<rparr>]\<rparr>,
      [LogSelect [(CHR ''r'', 3), (CHR ''r'', 4), (CHR ''w'', 4)],
       Invoke Read 3 0, Invoke Read 4 1, Invoke Write 4 2, Invoke Write 4 3,
       InvokeExcept 4 4]))"
  by (simp add: run_simps d_two_def)

lemma run_d_stdin:
  "DispatchOne (example_env (2, 0, fdsets {0, 3} {} {}) (answering (\<lambda>c. False))) 100
     (d_stdin, []) =
   Some (Returned
     (\<lparr>select = fdsets {0} {} {},
       watch = [\<lparr>active = True, read_cb = [9], write_cb = [], except_cb = None\<rparr>,
                no_watch, no_watch, no_watch]\<rparr>,
      [LogSelect [(CHR ''r'', 3)], Invoke Read 3 0]))"
  by (simp add: run_simps d_stdin_def)

lemma frame_answering: "frame (example_env res (answering ret)) y"
  by (simp add: frame_def example_env_def answering_def throwing_policy_def)

theorem DispatchOne_order_witness:
  "map key [LogSelect [(CHR ''r'', 3), (CHR ''r'', 4), (CHR ''w'', 4)],
       Invoke Read 3 0, Invoke Read 4 1, Invoke Write 4 2, Invoke Write 4 3,
       InvokeExcept 4 4] = [(0, 0), (3, 0), (4, 0), (4, 1), (4, 1), (4, 2)] \<and>
   sorted (map key [LogSelect [(CHR ''r'', 3), (CHR ''r'', 4), (CHR ''w'', 4)],
       Invoke Read 3 0, Invoke Read 4 1, Invoke Write 4 2, Invoke Write 4 3,
       InvokeExcept 4 4]) \<and>
   InRead (fdsets {0, 3} {} {}) 0 \<and> read_cb (watch d_stdin ! 0) = [9] \<and>
   (\<exists>d' tr'.
      DispatchOne (example_env (2, 0, fdsets {0, 3} {} {}) (answering (\<lambda>c. False))) 100
        (d_stdin, []) = Some (Returned (d', tr')) \<and>
      d' \<noteq> d_stdin \<and> calls Read 0 tr' = [] \<and> view 0 d' = view 0 d_stdin)"
proof -
  from DispatchOne_order[OF run_d_two] obtain new where
    "[LogSelect [(CHR ''r'', 3), (CHR ''r'', 4), (CHR ''w'', 4)],
       Invoke Read 3 0, Invoke Read 4 1, Invoke Write 4 2, Invoke Write 4 3,
       InvokeExcept 4 4] = new" "sorted (map key new)"
    by auto
  then have 1: "map key [LogSelect [(CHR ''r'', 3), (CHR ''r'', 4), (CHR ''w'', 4)],
       Invoke Read 3 0, Invoke Read 4 1, Invoke Write 4 2, Invoke Write 4 3,
       InvokeExcept 4 4] = [(0, 0), (3, 0), (4, 0), (4, 1), (4, 1), (4, 2)] \<and>
   sorted (map key [LogSelect [(CHR ''r'', 3), (CHR ''r'', 4), (CHR ''w'', 4)],
       Invoke Read 3 0, Invoke Read 4 1, Invoke Write 4 2, Invoke Write 4 3,
       InvokeExcept 4 4])"
    by (auto simp: key_def)
  let ?d = "\<lparr>select = fdsets {0} {} {},
       watch = [\<lparr>active = True, read_cb = [9], write_cb = [], except_cb = None\<rparr>,
                no_watch, no_watch, no_watch]\<rparr>"
  have l: "0 < length (watch (fst (d_stdin, []::event list)))" by (simp add: d_stdin_def)
  from DispatchOne_order[OF run_d_stdin] frame_answering[of _ _ 0] l
  have "view 0 ?d = view 0 d_stdin" by simp
  moreover have "?d \<noteq> d_stdin" by (simp add: d_stdin_def fdsets_def)
  ultimately show ?thesis using 1 run_d_stdin
    by (simp add: InRead_def fdsets_def d_stdin_def)
qed

section \<open>Descriptors that are not served\<close>

lemma frame_beyond_respected:
  assumes "frame_beyond env y" and "x \<noteq> y"
  shows "respected env x (\<lambda>d d'. \<not> y < length (watch d) \<longrightarrow> view y d' = view y d)"
  using assms
  unfolding respected_def frame_beyond_def
  by (auto simp: view_def entry_def bits_def read_done_def write_done_def
      InRead_def InWrite_def InException_def ClearRead_def ClearWrite_def ClearException_def
      split: if_splits)

lemma scan_beyond:
  assumes "frame_beyond env y" and "scan env fdset i s = Some out"
  shows "\<not> y < length (watch (fst s)) \<longrightarrow>
         (\<forall>s'. final out = Some s' \<longrightarrow> view y (fst s') = view y (fst s))"
  using assms(2)
proof (induct rule: scan_induct)
  case (stop i s)
  then show ?case by simp
next
  case (round i s s1 out)
  show ?case
  proof
    assume a: "\<not> y < length (watch (fst s))"
    with round(1) have "i \<noteq> y" by auto
    from dispatch_fd_rel[OF frame_beyond_respected[OF assms(1) this] round(2)] a
    have v: "view y (fst s1) = view y (fst s)" by simp
    with a have "\<not> y < length (watch (fst s1))"
      by (auto simp: view_def entry_def split: if_splits)
    with round(3) v show "\<forall>s'. final out = Some s' \<longrightarrow> view y (fst s') = view y (fst s)"
      by simp
  qed
next
  case (exit i s out)
  show ?case
  proof
    assume a: "\<not> y < length (watch (fst s))"
    with exit(1) have "i \<noteq> y" by auto
    from dispatch_fd_rel[OF frame_beyond_respected[OF assms(1) this] exit(2)] a
    show "\<forall>s'. final out = Some s' \<longrightarrow> view y (fst s') = view y (fst s)" by simp
  qed
qed

text \<open>
  Claim C10.  Let descriptor \<open>y\<close> have an entry that is inactive, or let the wait primitive
  have reported \<open>y\<close> ready neither for reading nor for writing nor for an exception.  If no
  callback and no default exception policy changes the entry or the interest bits of \<open>y\<close>
  (for a descriptor beyond the table: gives it an entry or changes its bits), then in
  whatever way \<open>DispatchOne\<close> ends, by returning or by throwing, the entry of \<open>y\<close>
  (active flag, both queues, exception handler; or no entry) and its three interest bits
  are as before.
\<close>

theorem DispatchOne_frame:
  assumes "if y < length (watch d) then frame env y else frame_beyond env y"
    and "select_timeout env (select d) t = (r, e, fdset)"
    and "(y < length (watch d) \<and> \<not> active (watch d ! y)) \<or>
         (\<not> InRead fdset y \<and> \<not> InWrite fdset y \<and> \<not> InException fdset y)"
    and "DispatchOne env t (d, tr) = Some out"
    and "final out = Some (d', tr')"
  shows "entry y d' = entry y d \<and> bits y d' = bits y d"
  using assms(4,5)
proof (cases rule: DispatchOne_cases)
  case (wait r e fdset)
  then show ?thesis by simp
next
  case (scan r' e' fdset' n)
  with assms(2) have "fdset' = fdset" by simp
  with scan(3) have sc: "scan env fdset 3 (d, tr @ n) = Some out" by simp
  have "view y d' = view y d"
  proof (cases "y < length (watch d)")
    case True
    from assms(3) have "idle fdset y d" by (auto simp: idle_def)
    moreover from assms(1) True have "frame env y" by simp
    from scan_frame[OF this sc] have
      "y < length (watch d) \<and> (y < 3 \<or> idle fdset y d) \<longrightarrow>
       (\<forall>s'. final out = Some s' \<longrightarrow> view y (fst s') = view y d)" by simp
    ultimately show ?thesis using True assms(5) by simp
  next
    case False
    with assms(1) have "frame_beyond env y" by simp
    from scan_beyond[OF this sc] False assms(5) show ?thesis by simp
  qed
  then show ?thesis by (simp add: view_def)
qed

lemma frame_beyond_answering: "frame_beyond (example_env res (answering ret)) y"
  by (simp add: frame_beyond_def example_env_def answering_def throwing_policy_def)

lemma run_d_two_4:
  "DispatchOne (example_env (2, 0, fdsets {4} {4} {4}) (answering (\<lambda>c. c = 3))) 100
     (d_two, []) =
   Some (Returned
     (\<lparr>select = fdsets {3} {4} {},
       watch = [no_watch, no_watch, no_watch,
                \<lparr>active = True, read_cb = [0], write_cb = [], except_cb = None\<rparr>,
                \<lparr>active = True, read_cb = [], write_cb = [3], except_cb = Some 4\<rparr>]\<rparr>,
      [LogSelect [(CHR ''r'', 3), (CHR ''r'', 4), (CHR ''w'', 4)],
       Invoke Read 4 1, Invoke Write 4 2, Invoke Write 4 3, InvokeExcept 4 4]))"
  by (simp add: run_simps d_two_def)

theorem DispatchOne_frame_witness:
  "\<exists>d' tr'.
     DispatchOne (example_env (2, 0, fdsets {4} {4} {4}) (answering (\<lambda>c. c = 3))) 100
       (d_two, []) = Some (Returned (d', tr')) \<and>
     d' \<noteq> d_two \<and> entry 3 d' = entry 3 d_two \<and> bits 3 d' = bits 3 d_two \<and>
     entry 7 d' = entry 7 d_two \<and> bits 7 d' = bits 7 d_two"
proof -
  have ready: "(3 < length (watch d_two) \<and> \<not> active (watch d_two ! 3)) \<or>
         (\<not> InRead (fdsets {4} {4} {4}) 3 \<and> \<not> InWrite (fdsets {4} {4} {4}) 3 \<and>
          \<not> InException (fdsets {4} {4} {4}) 3)"
    by (simp add: InRead_def InWrite_def InException_def fdsets_def)
  have ready7: "(7 < length (watch d_two) \<and> \<not> active (watch d_two ! 7)) \<or>
         (\<not> InRead (fdsets {4} {4} {4}) 7 \<and> \<not> InWrite (fdsets {4} {4} {4}) 7 \<and>
          \<not> InException (fdsets {4} {4} {4}) 7)"
    by (simp add: InRead_def InWrite_def InException_def fdsets_def)
  have wt: "select_timeout (example_env (2, 0, fdsets {4} {4} {4}) (answering (\<lambda>c. c = 3)))
      (select d_two) 100 = (2, 0, fdsets {4} {4} {4})"
    by (simp add: example_env_def)
  have f3: "if 3 < length (watch d_two)
      then frame (example_env (2, 0, fdsets {4} {4} {4}) (answering (\<lambda>c. c = 3))) 3
      else frame_beyond (example_env (2, 0, fdsets {4} {4} {4}) (answering (\<lambda>c. c = 3))) 3"
    using frame_answering frame_beyond_answering by simp
  have f7: "if 7 < length (watch d_two)
      then frame (example_env (2, 0, fdsets {4} {4} {4}) (answering (\<lambda>c. c = 3))) 7
      else frame_beyond (example_env (2, 0, fdsets {4} {4} {4}) (answering (\<lambda>c. c = 3))) 7"
    using frame_answering frame_beyond_answering by simp
  from DispatchOne_frame[OF f3 wt ready run_d_two_4]
    DispatchOne_frame[OF f7 wt ready7 run_d_two_4]
  show ?thesis using run_d_two_4 by (simp add: d_two_def fdsets_def)
qed

section \<open>Calls that return\<close>

lemma drain_calm:
  assumes "calm env" and "x < length (watch d)"
  shows "\<exists>d' tr'. drain env k x (d, tr) = Some (Returned (d', tr')) \<and>
                  length (watch d') = length (watch d)"
  using assms(2)
proof (induct "length (queue k (watch d ! x))" arbitrary: d tr)
  case 0
  then show ?case by (subst drain.simps) simp
next
  case (Suc n)
  then obtain c q where q: "queue k (watch d ! x) = c # q"
    by (cases "queue k (watch d ! x)") simp_all
  from assms(1) obtain b where c: "call env c d = (Returns b, d)"
    unfolding calm_def by blast
  show ?case
  proof (cases b)
    case True
    with q c show ?thesis by (subst drain.simps) simp
  next
    case False
    let ?d = "d\<lparr>watch := (watch d)[x := pop_front k (watch d ! x)]\<rparr>"
    from Suc(2,3) q have "n = length (queue k (watch ?d ! x))" by (cases k) simp_all
    moreover from Suc(3) have "x < length (watch ?d)" by simp
    ultimately obtain d' tr' where
      "drain env k x (?d, tr @ [Invoke k x c]) = Some (Returned (d', tr'))"
      "length (watch d') = length (watch ?d)"
      using Suc(1)[of ?d "tr @ [Invoke k x c]"] by blast
    with q c False Suc(3) show ?thesis by (subst drain.simps) simp
  qed
qed

lemma read_section_calm:
  assumes "calm env" and "x < length (watch (fst s))"
  shows "\<exists>s'. read_section env fdset x s = Some (Returned s') \<and>
              length (watch (fst s')) = length (watch (fst s))"
proof -
  from drain_calm[OF assms(1), of x "fst s" Read "snd s"] assms(2) obtain d' tr' where
    "drain env Read x s = Some (Returned (d', tr'))" "length (watch d') = length (watch (fst s))"
    by auto
  with assms(2) show ?thesis
    by (cases s) (auto simp: read_section_def read_done_def)
qed

lemma write_section_calm:
  assumes "calm env" and "x < length (watch (fst s))"
  shows "\<exists>s'. write_section env fdset x s = Some (Returned s') \<and>
              length (watch (fst s')) = length (watch (fst s))"
proof -
  from drain_calm[OF assms(1), of x "fst s" Write "snd s"] assms(2) obtain d' tr' where
    "drain env Write x s = Some (Returned (d', tr'))" "length (watch d') = length (watch (fst s))"
    by auto
  with assms(2) show ?thesis
    by (cases s) (auto simp: write_section_def write_done_def)
qed

lemma except_section_calm:
  assumes "calm env"
  shows "\<exists>s'. except_section env fdset x s = Returned s' \<and>
              length (watch (fst s')) = length (watch (fst s))"
proof (cases "InException fdset x")
  case False
  then show ?thesis by (simp add: except_section_def)
next
  case True
  show ?thesis
  proof (cases "except_cb (watch (fst s) ! x)")
    case None
    from assms obtain b where "DefaultExceptionCallback env (fst s) = (Returns b, fst s)"
      unfolding calm_def by blast
    with True None show ?thesis by (simp add: except_section_def)
  next
    case (Some c)
    from assms obtain b where "call env c (fst s) = (Returns b, fst s)"
      unfolding calm_def by blast
    with True Some show ?thesis by (simp add: except_section_def)
  qed
qed

lemma dispatch_fd_calm:
  assumes "calm env" and "x < length (watch (fst s))"
  shows "\<exists>s'. dispatch_fd env fdset x s = Some (Returned s') \<and>
              length (watch (fst s')) = length (watch (fst s))"
proof (cases "active (watch (fst s) ! x)")
  case False
  then show ?thesis by (simp add: dispatch_fd_def)
next
  case True
  from read_section_calm[OF assms, of fdset] obtain s1 where
    1: "read_section env fdset x s = Some (Returned s1)"
       "length (watch (fst s1)) = length (watch (fst s))" by blast
  with assms(2) have "x < length (watch (fst s1))" by simp
  from write_section_calm[OF assms(1) this, of fdset] obtain s2 where
    2: "write_section env fdset x s1 = Some (Returned s2)"
       "length (watch (fst s2)) = length (watch (fst s1))" by blast
  from except_section_calm[OF assms(1), of fdset x s2] obtain s3 where
    3: "except_section env fdset x s2 = Returned s3"
       "length (watch (fst s3)) = length (watch (fst s2))" by blast
  from True 1 2 3 show ?thesis by (simp add: dispatch_fd_def)
qed

lemma scan_calm:
  assumes "calm env"
  shows "\<exists>s'. scan env fdset i s = Some (Returned s')"
proof (induct "length (watch (fst s)) - i" arbitrary: i s)
  case 0
  then show ?case by (subst scan.simps) simp
next
  case (Suc n)
  then have len: "i < length (watch (fst s))" by simp
  from dispatch_fd_calm[OF assms len, of fdset] obtain s1 where
    1: "dispatch_fd env fdset i s = Some (Returned s1)"
       "length (watch (fst s1)) = length (watch (fst s))" by blast
  with Suc(2) have "n = length (watch (fst s1)) - (i + 1)" by simp
  from Suc(1)[OF this] obtain s' where "scan env fdset (i + 1) s1 = Some (Returned s')" by blast
  with len 1 show ?case by (subst scan.simps) simp
qed

lemma DispatchOne_calm:
  assumes "calm env" and "self_verify env \<longrightarrow> verify d"
    and "select_timeout env (select d) t = (r, e, fdset)" and "0 \<le> r \<or> e = EINTR env"
  shows "\<exists>s'. DispatchOne env t (d, tr) = Some (Returned s')"
proof -
  from scan_calm[OF assms(1)] obtain s' where
    "scan env fdset 3 (d, if debug env then tr @ [LogSelect (debug_line d)] else tr) =
     Some (Returned s')" by blast
  with assms(2-4) show ?thesis by (auto simp: DispatchOne_def)
qed

section \<open>Reading the summary\<close>

lemma calls_append: "calls k x (a @ b) = calls k x a @ calls k x b"
  by (induct a rule: calls.induct[of _ k x]) auto

lemma calls_map_Invoke: "calls k x (map (Invoke k' x) cs) = (if k' = k then cs else [])"
  by (induct cs) auto

lemma serve_queues:
  assumes "active w" and "serve ret fdset x (w, r, wr, e) = ((w', r', wr', e'), ev)"
  shows "read_cb w' = (if InRead fdset x then kept ret (read_cb w) else read_cb w)"
    and "write_cb w' = (if InWrite fdset x then kept ret (write_cb w) else write_cb w)"
    and "except_cb w' = except_cb w"
  using assms
  by (auto simp: serve_def kept_def split: if_splits option.splits)

lemma serve_active:
  assumes "active w" and "serve ret fdset x (w, r, wr, e) = ((w', r', wr', e'), ev)"
  shows "active w' \<longleftrightarrow>
         \<not> (read_cb w' = [] \<and> write_cb w' = [] \<and> except_cb w = None \<and>
            ((InRead fdset x \<and> read_cb w \<noteq> []) \<or> (InWrite fdset x \<and> write_cb w \<noteq> [])))"
  using assms
  by (auto simp: serve_def kept_def split: if_splits option.splits)

lemma serve_bits:
  assumes "active w" and "serve ret fdset x (w, r, wr, e) = ((w', r', wr', e'), ev)"
  shows "r' \<longleftrightarrow> r \<and> \<not> (InRead fdset x \<and> read_cb w' = []) \<and> active w'"
    and "wr' \<longleftrightarrow> wr \<and> \<not> (InWrite fdset x \<and> write_cb w' = []) \<and> active w'"
    and "e' \<longleftrightarrow> e \<and> active w' \<and>
           \<not> (InException fdset x \<and> (\<exists>c. except_cb w = Some c \<and> \<not> ret c))"
  using assms
  by (auto simp: serve_def kept_def split: if_splits option.splits)

lemma serve_events:
  assumes "active w" and "serve ret fdset x (w, r, wr, e) = ((w', r', wr', e'), ev)"
  shows "calls Read x ev = (if InRead fdset x then invoked ret (read_cb w) else [])"
    and "calls Write x ev = (if InWrite fdset x then invoked ret (write_cb w) else [])"
    and "LogNoHandler Read x \<in> set ev \<longleftrightarrow> InRead fdset x \<and> read_cb w = []"
    and "LogNoHandler Write x \<in> set ev \<longleftrightarrow> InWrite fdset x \<and> write_cb w = []"
  using assms
  by (auto simp: serve_def calls_append calls_map_Invoke invoked_def
      split: if_splits option.splits)

section \<open>Draining a chain of read callbacks\<close>

text \<open>
  Claim C2.  Let descriptor \<open>x\<close>, from 3 on, be active with a non-empty read queue and be
  reported ready for reading.  Let the callbacks registered on \<open>x\<close> return what \<open>ret\<close> says,
  and let no callback touch the entry and the bits of \<open>x\<close> itself (they may grow the table
  and change other entries).  If \<open>DispatchOne\<close> returns, then the read callbacks it has
  invoked for \<open>x\<close> are, in order, the callbacks of the queue that return false up to the
  first one that returns true, that one included; the queue is left with that one at its
  front, or empty when all returned false; and the read interest bit of \<open>x\<close> is what it was
  when the queue is not empty and is clear when it is.
\<close>

theorem DispatchOne_read_chain:
  assumes "frame env x" and "answers env ret w"
    and "self_verify env \<longrightarrow> verify d"
    and "select_timeout env (select d) t = (r, e, fdset)" and "0 < r"
    and "3 \<le> x" and "entry x d = Some w" and "active w"
    and "InRead fdset x" and "read_cb w \<noteq> []"
    and "DispatchOne env t (d, tr) = Some (Returned (d', tr'))"
  shows "\<exists>w' new. entry x d' = Some w' \<and> tr' = tr @ new \<and>
           calls Read x new =
             takeWhile (\<lambda>c. \<not> ret c) (read_cb w) @ take 1 (dropWhile (\<lambda>c. \<not> ret c) (read_cb w)) \<and>
           read_cb w' = dropWhile (\<lambda>c. \<not> ret c) (read_cb w) \<and>
           (InRead (select d') x \<longleftrightarrow> InRead (select d) x \<and> read_cb w' \<noteq> [])"
proof -
  from assms(7) have v: "view x d = (Some w, bits x d)" by (simp add: view_def)
  obtain w' r' wr' e' ev where
    sv: "serve ret fdset x (w, InRead (select d) x, InWrite (select d) x, InException (select d) x) =
         ((w', r', wr', e'), ev)"
    by (metis surj_pair)
  from DispatchOne_serve[OF assms(1-6) v assms(11)] sv obtain new where
    1: "view x d' = (Some w', r', wr', e')" "tr' = tr @ new"
       "filter (\<lambda>e. descr e = Some x) new = ev"
    by (auto simp: bits_def)
  from 1(3) have c: "calls Read x new = calls Read x ev"
    by (metis filter_descr_calls)
  from 1(1) have 2: "entry x d' = Some w'" "InRead (select d') x = r'"
    by (simp_all add: view_def bits_def)
  from serve_queues(1)[OF assms(8) sv] assms(9)
  have q: "read_cb w' = dropWhile (\<lambda>c. \<not> ret c) (read_cb w)" by (simp add: kept_def)
  from serve_events(1)[OF assms(8) sv] assms(9) c
  have i: "calls Read x new =
      takeWhile (\<lambda>c. \<not> ret c) (read_cb w) @ take 1 (dropWhile (\<lambda>c. \<not> ret c) (read_cb w))"
    by (simp add: invoked_def)
  from serve_bits(1)[OF assms(8) sv] serve_active[OF assms(8) sv] assms(9,10)
  have "r' \<longleftrightarrow> InRead (select d) x \<and> read_cb w' \<noteq> []" by auto
  with 1(2) 2 q i show ?thesis by blast
qed

lemma frame_chain: "frame (example_env res chain_cbs) 3"
  by (auto simp: frame_def example_env_def chain_cbs_def throwing_policy_def register_read_def
      view_def entry_def bits_def InRead_def InWrite_def InException_def Let_def nth_append)

lemma run_d_chain:
  "DispatchOne (example_env (1, 0, fdsets {3} {} {}) chain_cbs) 100 (d_chain, []) =
   Some (Returned
     (\<lparr>select = fdsets {3, 4} {} {},
       watch = [no_watch, no_watch, no_watch,
                \<lparr>active = True, read_cb = [2], write_cb = [], except_cb = None\<rparr>,
                \<lparr>active = True, read_cb = [7], write_cb = [], except_cb = None\<rparr>]\<rparr>,
      [LogSelect [(CHR ''r'', 3)], Invoke Read 3 0, Invoke Read 3 1, Invoke Read 3 2]))"
  by (simp add: run_simps d_chain_def chain_cbs_def register_read_def Let_def insert_commute)

theorem DispatchOne_read_chain_witness:
  "\<exists>d' w' new.
     DispatchOne (example_env (1, 0, fdsets {3} {} {}) chain_cbs) 100 (d_chain, []) =
       Some (Returned (d', new)) \<and>
     length (watch d') = 5 \<and> entry 3 d' = Some w' \<and>
     calls Read 3 new = [0, 1, 2] \<and> read_cb w' = [2] \<and> InRead (select d') 3"
proof -
  let ?env = "example_env (1, 0, fdsets {3} {} {}) chain_cbs"
  let ?w = "\<lparr>active = True, read_cb = [0, 1, 2], write_cb = [], except_cb = None\<rparr>"
  have an: "answers ?env (\<lambda>c. c = 2) ?w"
    by (simp add: answers_def example_env_def chain_cbs_def)
  have sv: "self_verify ?env \<longrightarrow> verify d_chain"
    by (simp add: verify_def d_chain_def fdsets_def InRead_def InWrite_def upt_rec)
  have wt: "select_timeout ?env (select d_chain) 100 = (1, 0, fdsets {3} {} {})"
    by (simp add: example_env_def)
  have en: "entry 3 d_chain = Some ?w" by (simp add: entry_def d_chain_def)
  have rd: "InRead (fdsets {3} {} {}) 3" by (simp add: InRead_def fdsets_def)
  from DispatchOne_read_chain[OF frame_chain an sv wt _ _ en _ rd _ run_d_chain]
  show ?thesis using run_d_chain
    by (auto simp: InRead_def d_chain_def fdsets_def)
qed

section \<open>Deactivation\<close>

text \<open>
  Claim C3.  Let descriptor \<open>x\<close>, from 3 on, be active, let its callbacks return what \<open>ret\<close>
  says and let no callback touch the entry and the bits of \<open>x\<close>.  If \<open>DispatchOne\<close> returns,
  then the entry of \<open>x\<close> is inactive afterwards exactly when a read chain or a write chain
  of \<open>x\<close> was run in this call and, at the end, both queues are empty and there is no
  exception handler; and then none of the three interest bits of \<open>x\<close> is set.
\<close>

theorem DispatchOne_deactivation:
  assumes "frame env x" and "answers env ret w"
    and "self_verify env \<longrightarrow> verify d"
    and "select_timeout env (select d) t = (r, e, fdset)" and "0 < r"
    and "3 \<le> x" and "entry x d = Some w" and "active w"
    and "DispatchOne env t (d, tr) = Some (Returned (d', tr'))"
  shows "\<exists>w'. entry x d' = Some w' \<and>
           (\<not> active w' \<longleftrightarrow>
              ((InRead fdset x \<and> read_cb w \<noteq> []) \<or> (InWrite fdset x \<and> write_cb w \<noteq> [])) \<and>
              read_cb w' = [] \<and> write_cb w' = [] \<and> except_cb w' = None) \<and>
           (\<not> active w' \<longrightarrow>
              \<not> InRead (select d') x \<and> \<not> InWrite (select d') x \<and> \<not> InException (select d') x)"
proof -
  from assms(7) have v: "view x d = (Some w, bits x d)" by (simp add: view_def)
  obtain w' r' wr' e' ev where
    sv: "serve ret fdset x (w, InRead (select d) x, InWrite (select d) x, InException (select d) x) =
         ((w', r', wr', e'), ev)"
    by (metis surj_pair)
  from DispatchOne_serve[OF assms(1-6) v assms(9)] sv
  have 1: "view x d' = (Some w', r', wr', e')" by (auto simp: bits_def)
  then have 2: "entry x d' = Some w'" "InRead (select d') x = r'" "InWrite (select d') x = wr'"
    "InException (select d') x = e'"
    by (simp_all add: view_def bits_def)
  from serve_active[OF assms(8) sv] serve_queues(3)[OF assms(8) sv]
  have a: "\<not> active w' \<longleftrightarrow>
              ((InRead fdset x \<and> read_cb w \<noteq> []) \<or> (InWrite fdset x \<and> write_cb w \<noteq> [])) \<and>
              read_cb w' = [] \<and> write_cb w' = [] \<and> except_cb w' = None"
    by auto
  from serve_bits[OF assms(8) sv] have "\<not> active w' \<longrightarrow> \<not> r' \<and> \<not> wr' \<and> \<not> e'" by simp
  with a 2 show ?thesis by simp
qed

lemma run_d_single:
  "DispatchOne (example_env (1, 0, fdsets {3} {} {}) (answering (\<lambda>c. False))) 100 (d_single, []) =
   Some (Returned
     (\<lparr>select = fdsets {} {} {},
       watch = [no_watch, no_watch, no_watch, no_watch]\<rparr>,
      [LogSelect [(CHR ''r'', 3), (CHR ''e'', 3)], Invoke Read 3 0]))"
  by (simp add: run_simps d_single_def)

theorem DispatchOne_deactivation_witness:
  "\<exists>d' tr' w'.
     DispatchOne (example_env (1, 0, fdsets {3} {} {}) (answering (\<lambda>c. False))) 100
       (d_single, []) = Some (Returned (d', tr')) \<and>
     entry 3 d' = Some w' \<and> \<not> active w' \<and>
     \<not> InRead (select d') 3 \<and> \<not> InWrite (select d') 3 \<and> \<not> InException (select d') 3"
proof -
  let ?env = "example_env (1, 0, fdsets {3} {} {}) (answering (\<lambda>c. False))"
  let ?w = "\<lparr>active = True, read_cb = [0], write_cb = [], except_cb = None\<rparr>"
  have an: "answers ?env (\<lambda>c. False) ?w"
    by (simp add: answers_def example_env_def answering_def)
  have sv: "self_verify ?env \<longrightarrow> verify d_single"
    by (simp add: verify_def d_single_def fdsets_def InRead_def InWrite_def upt_rec)
  have wt: "select_timeout ?env (select d_single) 100 = (1, 0, fdsets {3} {} {})"
    by (simp add: example_env_def)
  have en: "entry 3 d_single = Some ?w" by (simp add: entry_def d_single_def)
  from DispatchOne_deactivation[OF frame_answering an sv wt _ _ en _ run_d_single]
  show ?thesis using run_d_single
    by (auto simp: InRead_def fdsets_def entry_def no_watch_def)
qed

section \<open>Readiness without a handler\<close>

text \<open>
  Claim C5.  Whatever the callbacks do, when the read part of the handling of a descriptor
  finds the descriptor reported ready for reading and its read queue empty, it clears the
  read interest bit, writes a log line and ends normally, so that the write part and the
  exception part follow; the same holds for writing.  For one call of \<open>DispatchOne\<close> that
  returns: let descriptor \<open>x\<close>, from 3 on, be active, let its callbacks return what \<open>ret\<close>
  says and let no callback touch the entry and the bits of \<open>x\<close>.  If \<open>x\<close> is reported ready
  for reading and its read queue is empty, then afterwards the read interest bit of \<open>x\<close> is
  clear, the log line has been written and the write chain of \<open>x\<close> has been run all the
  same when \<open>x\<close> was ready for writing; if \<open>x\<close> is reported ready for writing and its write
  queue is empty, the write interest bit is clear and the log line has been written.
  And when every callback and the default exception policy return normally and leave the
  dispatcher as it is, a call of \<open>DispatchOne\<close> in which the wait reports descriptors
  ready does return, whether or not handlers are missing.
\<close>

theorem DispatchOne_no_handler:
  "(InRead fdset x \<and> read_cb (watch d ! x) = [] \<longrightarrow>
      read_section env fdset x (d, tr) =
      Some (Returned (d\<lparr>select := ClearRead (select d) x\<rparr>, tr @ [LogNoHandler Read x]))) \<and>
   (InWrite fdset x \<and> write_cb (watch d ! x) = [] \<longrightarrow>
      write_section env fdset x (d, tr) =
      Some (Returned (d\<lparr>select := ClearWrite (select d) x\<rparr>, tr @ [LogNoHandler Write x]))) \<and>
   (frame env x \<and> answers env ret w \<and> (self_verify env \<longrightarrow> verify d) \<and>
    select_timeout env (select d) t = (r, e, fdset) \<and> 0 < r \<and>
    3 \<le> x \<and> entry x d = Some w \<and> active w \<and>
    DispatchOne env t (d, tr) = Some (Returned (d', tr')) \<longrightarrow>
      (\<exists>new. tr' = tr @ new \<and>
         (InRead fdset x \<and> read_cb w = [] \<longrightarrow>
            \<not> InRead (select d') x \<and> LogNoHandler Read x \<in> set new \<and>
            calls Write x new =
              (if InWrite fdset x
               then takeWhile (\<lambda>c. \<not> ret c) (write_cb w) @
                    take 1 (dropWhile (\<lambda>c. \<not> ret c) (write_cb w))
               else [])) \<and>
         (InWrite fdset x \<and> write_cb w = [] \<longrightarrow>
            \<not> InWrite (select d') x \<and> LogNoHandler Write x \<in> set new))) \<and>
   (calm env \<and> (self_verify env \<longrightarrow> verify d) \<and>
    select_timeout env (select d) t = (r, e, fdset) \<and> 0 < r \<longrightarrow>
      (\<exists>s'. DispatchOne env t (d, tr) = Some (Returned s')))"
proof (intro conjI impI)
  assume "calm env \<and> (self_verify env \<longrightarrow> verify d) \<and>
    select_timeout env (select d) t = (r, e, fdset) \<and> 0 < r"
  then show "\<exists>s'. DispatchOne env t (d, tr) = Some (Returned s')"
    by (intro DispatchOne_calm[of env d t r e fdset]) simp_all
next
  assume "InRead fdset x \<and> read_cb (watch d ! x) = []"
  then show "read_section env fdset x (d, tr) =
      Some (Returned (d\<lparr>select := ClearRead (select d) x\<rparr>, tr @ [LogNoHandler Read x]))"
    by (simp add: read_section_def)
next
  assume "InWrite fdset x \<and> write_cb (watch d ! x) = []"
  then show "write_section env fdset x (d, tr) =
      Some (Returned (d\<lparr>select := ClearWrite (select d) x\<rparr>, tr @ [LogNoHandler Write x]))"
    by (simp add: write_section_def)
next
  assume a: "frame env x \<and> answers env ret w \<and> (self_verify env \<longrightarrow> verify d) \<and>
    select_timeout env (select d) t = (r, e, fdset) \<and> 0 < r \<and>
    3 \<le> x \<and> entry x d = Some w \<and> active w \<and>
    DispatchOne env t (d, tr) = Some (Returned (d', tr'))"
  then have fr: "frame env x" and an: "answers env ret w"
    and sv: "self_verify env \<longrightarrow> verify d"
    and wt: "select_timeout env (select d) t = (r, e, fdset)" and r: "0 < r"
    and x3: "3 \<le> x" and en: "entry x d = Some w" and act: "active w"
    and run: "DispatchOne env t (d, tr) = Some (Returned (d', tr'))"
    by simp_all
  from en have v: "view x d = (Some w, bits x d)" by (simp add: view_def)
  obtain w' r' wr' e' ev where
    s: "serve ret fdset x (w, InRead (select d) x, InWrite (select d) x, InException (select d) x) =
         ((w', r', wr', e'), ev)"
    by (metis surj_pair)
  from DispatchOne_serve[OF fr an sv wt r x3 v run] s obtain new where
    1: "view x d' = (Some w', r', wr', e')" "tr' = tr @ new"
       "filter (\<lambda>e. descr e = Some x) new = ev"
    by (auto simp: bits_def)
  from 1(1) have 2: "InRead (select d') x = r'" "InWrite (select d') x = wr'"
    by (simp_all add: view_def bits_def)
  from 1(3) have c: "calls Write x new = calls Write x ev" by (metis filter_descr_calls)
  from 1(3) have m: "\<And>k. LogNoHandler k x \<in> set new \<longleftrightarrow> LogNoHandler k x \<in> set ev"
    by auto
  have rd: "\<not> InRead (select d') x \<and> LogNoHandler Read x \<in> set new \<and>
            calls Write x new =
              (if InWrite fdset x
               then takeWhile (\<lambda>c. \<not> ret c) (write_cb w) @
                    take 1 (dropWhile (\<lambda>c. \<not> ret c) (write_cb w))
               else [])"
    if "InRead fdset x \<and> read_cb w = []"
    using that serve_bits(1)[OF act s] serve_queues(1)[OF act s] serve_events(2,3)[OF act s]
      2 c m
    by (simp add: kept_def invoked_def)
  have wr: "\<not> InWrite (select d') x \<and> LogNoHandler Write x \<in> set new"
    if "InWrite fdset x \<and> write_cb w = []"
    using that serve_bits(2)[OF act s] serve_queues(2)[OF act s] serve_events(4)[OF act s] 2 m
    by (simp add: kept_def)
  from 1(2) rd wr show "\<exists>new. tr' = tr @ new \<and>
         (InRead fdset x \<and> read_cb w = [] \<longrightarrow>
            \<not> InRead (select d') x \<and> LogNoHandler Read x \<in> set new \<and>
            calls Write x new =
              (if InWrite fdset x
               then takeWhile (\<lambda>c. \<not> ret c) (write_cb w) @
                    take 1 (dropWhile (\<lambda>c. \<not> ret c) (write_cb w))
               else [])) \<and>
         (InWrite fdset x \<and> write_cb w = [] \<longrightarrow>
            \<not> InWrite (select d') x \<and> LogNoHandler Write x \<in> set new)"
    by blast
qed

lemma run_d_stale:
  "DispatchOne (unchecked_env (1, 0, fdsets {} {3} {}) (answering (\<lambda>c. True))) 100 (d_stale, []) =
   Some (Returned
     (\<lparr>select = fdsets {3} {} {},
       watch = [no_watch, no_watch, no_watch,
                \<lparr>active = True, read_cb = [0], write_cb = [], except_cb = None\<rparr>]\<rparr>,
      [LogSelect [(CHR ''r'', 3), (CHR ''w'', 3)], LogNoHandler Write 3]))"
  by (simp add: run_simps unchecked_env_def d_stale_def)

theorem DispatchOne_no_handler_witness:
  "(\<exists>d' new.
      DispatchOne (unchecked_env (1, 0, fdsets {} {3} {}) (answering (\<lambda>c. True))) 100
        (d_stale, []) = Some (Returned (d', new)) \<and>
      InWrite (select d_stale) 3 \<and> \<not> InWrite (select d') 3 \<and>
      LogNoHandler Write 3 \<in> set new) \<and>
   (\<exists>s'. DispatchOne
      ((unchecked_env (1, 0, fdsets {} {3} {}) (answering (\<lambda>c. True)))
         \<lparr>DefaultExceptionCallback := (\<lambda>d. (Returns True, d))\<rparr>) 100 (d_stale, []) =
      Some (Returned s'))"
proof -
  let ?env = "unchecked_env (1, 0, fdsets {} {3} {}) (answering (\<lambda>c. True))"
  let ?env2 = "?env\<lparr>DefaultExceptionCallback := (\<lambda>d. (Returns True, d))\<rparr>"
  let ?w = "\<lparr>active = True, read_cb = [0], write_cb = [], except_cb = None\<rparr>"
  have fr: "frame ?env 3"
    by (simp add: frame_def unchecked_env_def example_env_def answering_def throwing_policy_def)
  have an: "answers ?env (\<lambda>c. True) ?w"
    by (simp add: answers_def unchecked_env_def example_env_def answering_def)
  have sv: "self_verify ?env \<longrightarrow> verify d_stale"
    by (simp add: unchecked_env_def)
  have wt: "select_timeout ?env (select d_stale) 100 = (1, 0, fdsets {} {3} {})"
    by (simp add: unchecked_env_def example_env_def)
  have en: "entry 3 d_stale = Some ?w" by (simp add: entry_def d_stale_def)
  have rdy: "InWrite (fdsets {} {3} {}) 3" by (simp add: InWrite_def fdsets_def)
  from DispatchOne_no_handler[of "fdsets {} {3} {}" 3 d_stale ?env "[]" "\<lambda>c. True" ?w 100 1 0]
    fr an sv wt en rdy run_d_stale
  have 1: "\<exists>d' new.
      DispatchOne ?env 100 (d_stale, []) = Some (Returned (d', new)) \<and>
      InWrite (select d_stale) 3 \<and> \<not> InWrite (select d') 3 \<and>
      LogNoHandler Write 3 \<in> set new"
    by (auto simp: InWrite_def d_stale_def fdsets_def)
  have cm: "calm ?env2"
    by (auto simp: calm_def unchecked_env_def example_env_def answering_def)
  have sv2: "self_verify ?env2 \<longrightarrow> verify d_stale"
    by (simp add: unchecked_env_def)
  have wt2: "select_timeout ?env2 (select d_stale) 100 = (1, 0, fdsets {} {3} {})"
    by (simp add: unchecked_env_def example_env_def)
  from DispatchOne_no_handler[of "fdsets {} {3} {}" 3 d_stale ?env2 "[]" "\<lambda>c. True" ?w 100 1 0]
    cm sv2 wt2
  have 2: "\<exists>s'. DispatchOne ?env2 100 (d_stale, []) = Some (Returned s')"
    by simp
  from 1 2 show ?thesis by blast
qed

section \<open>The invariant on the read and write bits\<close>

lemma I2_rw_iff:
  "I2_rw d \<longleftrightarrow> (\<forall>x<length (watch d). active (watch d ! x) \<longrightarrow> mirror Read d x \<and> mirror Write d x)"
  by (auto simp: I2_rw_def list_all_iff)

lemma almost_iff:
  "almost k x d \<longleftrightarrow>
     (\<forall>y<length (watch d). active (watch d ! y) \<longrightarrow>
        (if y = x
         then mirror (other k) d y \<and> (queue k (watch d ! y) \<noteq> [] \<longrightarrow> In k (select d) y)
         else mirror Read d y \<and> mirror Write d y))"
  by (auto simp: almost_def list_all_iff)

lemma I2_rw_almost: "I2_rw d \<Longrightarrow> almost k x d"
  by (cases k) (auto simp: I2_rw_iff almost_iff mirror_def)

lemma almost_I2_rw:
  assumes "almost k x d" and "x < length (watch d)" and "queue k (watch d ! x) \<noteq> []"
  shows "I2_rw d"
  unfolding I2_rw_iff
proof (intro allI impI)
  fix y assume y: "y < length (watch d)" "active (watch d ! y)"
  show "mirror Read d y \<and> mirror Write d y"
  proof (cases "y = x")
    case False
    with assms(1) y show ?thesis by (simp add: almost_iff)
  next
    case True
    with assms y have "mirror (other k) d x" "In k (select d) x" by (simp_all add: almost_iff)
    with assms(3) True show ?thesis by (cases k) (simp_all add: mirror_def)
  qed
qed

lemma almost_pop:
  assumes "I2_rw d" and "x < length (watch d)" and "queue k (watch d ! x) \<noteq> []"
  shows "almost k x (d\<lparr>watch := (watch d)[x := pop_front k (watch d ! x)]\<rparr>)"
  unfolding almost_iff
proof (intro allI impI)
  fix y
  assume y: "y < length (watch (d\<lparr>watch := (watch d)[x := pop_front k (watch d ! x)]\<rparr>))"
    "active (watch (d\<lparr>watch := (watch d)[x := pop_front k (watch d ! x)]\<rparr>) ! y)"
  show "if y = x
        then mirror (other k) (d\<lparr>watch := (watch d)[x := pop_front k (watch d ! x)]\<rparr>) y \<and>
             (queue k (watch (d\<lparr>watch := (watch d)[x := pop_front k (watch d ! x)]\<rparr>) ! y) \<noteq> [] \<longrightarrow>
              In k (select (d\<lparr>watch := (watch d)[x := pop_front k (watch d ! x)]\<rparr>)) y)
        else mirror Read (d\<lparr>watch := (watch d)[x := pop_front k (watch d ! x)]\<rparr>) y \<and>
             mirror Write (d\<lparr>watch := (watch d)[x := pop_front k (watch d ! x)]\<rparr>) y"
  proof (cases "y = x")
    case False
    with assms(1) y show ?thesis by (simp add: I2_rw_iff mirror_def)
  next
    case True
    with y assms(2) have "active (watch d ! x)" by (cases k) simp_all
    with assms(1,2) have "mirror Read d x" "mirror Write d x" by (simp_all add: I2_rw_iff)
    with True assms(2,3) show ?thesis by (cases k) (simp_all add: mirror_def)
  qed
qed

lemma drain_almost:
  assumes kp: "keeps_I2_rw env" and run: "drain env k x s = Some out"
  shows "almost k x (fst s) \<and> x < length (watch (fst s)) \<longrightarrow>
         (\<forall>s'. out = Returned s' \<longrightarrow> almost k x (fst s')) \<and>
         (\<forall>e s'. out = Threw e s' \<longrightarrow> I2_rw (fst s'))"
  using run
proof (induct rule: drain_induct)
  case (empty s)
  then show ?case by simp
next
  case (throws s c q e d')
  show ?case
  proof
    assume a: "almost k x (fst s) \<and> x < length (watch (fst s))"
    with throws(1) have "I2_rw (fst s)" by (intro almost_I2_rw[of k x]) simp_all
    with kp have "I2_rw (snd (call env c (fst s)))" by (simp add: keeps_I2_rw_def)
    with throws(2) show "(\<forall>s'. Threw e (d', snd s @ [Invoke k x c]) = Returned s' \<longrightarrow>
          almost k x (fst s')) \<and>
      (\<forall>ea s'. Threw e (d', snd s @ [Invoke k x c]) = Threw ea s' \<longrightarrow> I2_rw (fst s'))"
      by simp
  qed
next
  case (keep s c q d')
  show ?case
  proof
    assume a: "almost k x (fst s) \<and> x < length (watch (fst s))"
    with keep(1) have "I2_rw (fst s)" by (intro almost_I2_rw[of k x]) simp_all
    with kp have "I2_rw (snd (call env c (fst s)))" by (simp add: keeps_I2_rw_def)
    with keep(2) have "almost k x d'" by (simp add: I2_rw_almost)
    then show "(\<forall>s'. Returned (d', snd s @ [Invoke k x c]) = Returned s' \<longrightarrow>
          almost k x (fst s')) \<and>
      (\<forall>e s'. Returned (d', snd s @ [Invoke k x c]) = Threw e s' \<longrightarrow> I2_rw (fst s'))"
      by simp
  qed
next
  case (pop s c q d' out)
  show ?case
  proof
    assume a: "almost k x (fst s) \<and> x < length (watch (fst s))"
    with pop(1) have "I2_rw (fst s)" by (intro almost_I2_rw[of k x]) simp_all
    with kp have "I2_rw (snd (call env c (fst s)))" by (simp add: keeps_I2_rw_def)
    with pop(2) have "I2_rw d'" by simp
    from almost_pop[OF this pop(3,4)] pop(3,5)
    show "(\<forall>s'. out = Returned s' \<longrightarrow> almost k x (fst s')) \<and>
      (\<forall>e s'. out = Threw e s' \<longrightarrow> I2_rw (fst s'))"
      by simp
  qed
next
  case (undef s c q d')
  then show ?case by simp
qed

lemma I2_rw_read_done:
  assumes "almost Read x d" and "x < length (watch d)"
  shows "I2_rw (read_done x d)"
  unfolding I2_rw_iff
proof (intro allI impI)
  fix y assume y: "y < length (watch (read_done x d))" "active (watch (read_done x d) ! y)"
  show "mirror Read (read_done x d) y \<and> mirror Write (read_done x d) y"
  proof (cases "y = x")
    case False
    with y have "y < length (watch d)" "active (watch d ! y)"
      by (auto simp: read_done_def split: if_splits)
    with assms(1) False have "mirror Read d y \<and> mirror Write d y" by (simp add: almost_iff)
    with False show ?thesis
      by (auto simp: read_done_def mirror_def InRead_def InWrite_def ClearRead_def
          ClearWrite_def ClearException_def)
  next
    case True
    with y assms(2) have act: "active (watch d ! x)"
      by (auto simp: read_done_def split: if_splits)
    with assms have "mirror Write d x" "read_cb (watch d ! x) \<noteq> [] \<longrightarrow> InRead (select d) x"
      by (auto simp: almost_iff)
    with True y assms(2) show ?thesis
      by (auto simp: read_done_def mirror_def InRead_def InWrite_def ClearRead_def
          ClearWrite_def ClearException_def split: if_splits)
  qed
qed

lemma I2_rw_write_done:
  assumes "almost Write x d" and "x < length (watch d)"
  shows "I2_rw (write_done x d)"
  unfolding I2_rw_iff
proof (intro allI impI)
  fix y assume y: "y < length (watch (write_done x d))" "active (watch (write_done x d) ! y)"
  show "mirror Read (write_done x d) y \<and> mirror Write (write_done x d) y"
  proof (cases "y = x")
    case False
    with y have "y < length (watch d)" "active (watch d ! y)"
      by (auto simp: write_done_def split: if_splits)
    with assms(1) False have "mirror Read d y \<and> mirror Write d y" by (simp add: almost_iff)
    with False show ?thesis
      by (auto simp: write_done_def mirror_def InRead_def InWrite_def ClearRead_def
          ClearWrite_def ClearException_def)
  next
    case True
    with y assms(2) have act: "active (watch d ! x)"
      by (auto simp: write_done_def split: if_splits)
    with assms have "mirror Read d x" "write_cb (watch d ! x) \<noteq> [] \<longrightarrow> InWrite (select d) x"
      by (auto simp: almost_iff)
    with True y assms(2) show ?thesis
      by (auto simp: write_done_def mirror_def InRead_def InWrite_def ClearRead_def
          ClearWrite_def ClearException_def split: if_splits)
  qed
qed

lemma I2_rw_clear:
  assumes "I2_rw d"
  shows "read_cb (watch d ! x) = [] \<Longrightarrow> I2_rw (d\<lparr>select := ClearRead (select d) x\<rparr>)"
    and "write_cb (watch d ! x) = [] \<Longrightarrow> I2_rw (d\<lparr>select := ClearWrite (select d) x\<rparr>)"
    and "I2_rw (d\<lparr>select := ClearException (select d) x\<rparr>)"
  using assms
  by (auto simp: I2_rw_iff mirror_def InRead_def InWrite_def ClearRead_def ClearWrite_def
      ClearException_def)

lemma read_section_I2_rw:
  assumes kp: "keeps_I2_rw env" and inv: "I2_rw (fst s)" and len: "x < length (watch (fst s))"
    and run: "read_section env fdset x s = Some out" and fin: "final out = Some s'"
  shows "I2_rw (fst s')"
proof (cases "InRead fdset x \<and> read_cb (watch (fst s) ! x) \<noteq> []")
  case False
  with run fin inv I2_rw_clear(1)[OF inv, of x] show ?thesis
    by (auto simp: read_section_def split: if_splits)
next
  case True
  with run obtain o1 where o1: "drain env Read x s = Some o1"
    by (cases "drain env Read x s") (auto simp: read_section_def)
  from drain_almost[OF kp o1] I2_rw_almost[OF inv] len
  have d: "\<forall>s'. o1 = Returned s' \<longrightarrow> almost Read x (fst s')"
    "\<forall>e s'. o1 = Threw e s' \<longrightarrow> I2_rw (fst s')" by simp_all
  show ?thesis
  proof (cases o1)
    case (Returned s1)
    with d(1) have a: "almost Read x (fst s1)" by simp
    from run fin True o1 Returned have "x < length (watch (fst s1))" "fst s' = read_done x (fst s1)"
      by (auto simp: read_section_def split: if_splits prod.splits)
    with I2_rw_read_done[OF a] show ?thesis by simp
  next
    case (Threw e s1)
    with run fin True o1 have "s' = s1" by (auto simp: read_section_def)
    with d(2) Threw show ?thesis by (cases s1) auto
  next
    case Aborted
    with run fin True o1 show ?thesis by (auto simp: read_section_def)
  next
    case Undefined
    with run fin True o1 show ?thesis by (auto simp: read_section_def)
  qed
qed

lemma write_section_I2_rw:
  assumes kp: "keeps_I2_rw env" and inv: "I2_rw (fst s)" and len: "x < length (watch (fst s))"
    and run: "write_section env fdset x s = Some out" and fin: "final out = Some s'"
  shows "I2_rw (fst s')"
proof (cases "InWrite fdset x \<and> write_cb (watch (fst s) ! x) \<noteq> []")
  case False
  with run fin inv I2_rw_clear(2)[OF inv, of x] show ?thesis
    by (auto simp: write_section_def split: if_splits)
next
  case True
  with run obtain o1 where o1: "drain env Write x s = Some o1"
    by (cases "drain env Write x s") (auto simp: write_section_def)
  from drain_almost[OF kp o1] I2_rw_almost[OF inv] len
  have d: "\<forall>s'. o1 = Returned s' \<longrightarrow> almost Write x (fst s')"
    "\<forall>e s'. o1 = Threw e s' \<longrightarrow> I2_rw (fst s')" by simp_all
  show ?thesis
  proof (cases o1)
    case (Returned s1)
    with d(1) have a: "almost Write x (fst s1)" by simp
    from run fin True o1 Returned have "x < length (watch (fst s1))" "fst s' = write_done x (fst s1)"
      by (auto simp: write_section_def split: if_splits prod.splits)
    with I2_rw_write_done[OF a] show ?thesis by simp
  next
    case (Threw e s1)
    with run fin True o1 have "s' = s1" by (auto simp: write_section_def)
    with d(2) Threw show ?thesis by (cases s1) auto
  next
    case Aborted
    with run fin True o1 show ?thesis by (auto simp: write_section_def)
  next
    case Undefined
    with run fin True o1 show ?thesis by (auto simp: write_section_def)
  qed
qed

lemma except_section_I2_rw:
  assumes kp: "keeps_I2_rw env" and inv: "I2_rw (fst s)"
    and fin: "final (except_section env fdset x s) = Some s'"
  shows "I2_rw (fst s')"
proof (cases "InException fdset x")
  case False
  with fin inv show ?thesis by (simp add: except_section_def)
next
  case True
  show ?thesis
  proof (cases "except_cb (watch (fst s) ! x)")
    case None
    obtain q d' where q: "DefaultExceptionCallback env (fst s) = (q, d')"
      by (cases "DefaultExceptionCallback env (fst s)")
    from kp inv have "I2_rw (snd (DefaultExceptionCallback env (fst s)))"
      by (simp add: keeps_I2_rw_def)
    with q have "I2_rw d'" by simp
    with fin True None q show ?thesis by (cases q) (auto simp: except_section_def)
  next
    case (Some c)
    obtain q d' where q: "call env c (fst s) = (q, d')" by (cases "call env c (fst s)")
    from kp inv have "I2_rw (snd (call env c (fst s)))" by (simp add: keeps_I2_rw_def)
    with q have i: "I2_rw d'" by simp
    with fin True Some q I2_rw_clear(3)[OF i, of x] show ?thesis
      by (cases q) (auto simp: except_section_def split: if_splits)
  qed
qed


lemma read_section_length:
  assumes "read_section env fdset x s = Some (Returned s1)" and "x < length (watch (fst s))"
  shows "x < length (watch (fst s1))"
proof (cases "InRead fdset x \<and> read_cb (watch (fst s) ! x) \<noteq> []")
  case False
  with assms show ?thesis by (auto simp: read_section_def split: if_splits)
next
  case True
  with assms(1) obtain o1 where o1: "drain env Read x s = Some o1"
    by (cases "drain env Read x s") (auto simp: read_section_def)
  with assms(1) True show ?thesis
    by (cases o1) (auto simp: read_section_def read_done_def split: if_splits)
qed

lemma write_section_length:
  assumes "write_section env fdset x s = Some (Returned s1)" and "x < length (watch (fst s))"
  shows "x < length (watch (fst s1))"
proof (cases "InWrite fdset x \<and> write_cb (watch (fst s) ! x) \<noteq> []")
  case False
  with assms show ?thesis by (auto simp: write_section_def split: if_splits)
next
  case True
  with assms(1) obtain o1 where o1: "drain env Write x s = Some o1"
    by (cases "drain env Write x s") (auto simp: write_section_def)
  with assms(1) True show ?thesis
    by (cases o1) (auto simp: write_section_def write_done_def split: if_splits)
qed

lemma dispatch_fd_I2_rw:
  assumes kp: "keeps_I2_rw env" and inv: "I2_rw (fst s)" and len: "x < length (watch (fst s))"
    and run: "dispatch_fd env fdset x s = Some out" and fin: "final out = Some s'"
  shows "I2_rw (fst s')"
proof (cases "active (watch (fst s) ! x)")
  case False
  with run fin inv show ?thesis by (auto simp: dispatch_fd_def)
next
  case True
  obtain o1 where o1: "read_section env fdset x s = Some o1"
    using run True by (cases "read_section env fdset x s") (auto simp: dispatch_fd_def)
  show ?thesis
  proof (cases "\<exists>s1. o1 = Returned s1")
    case False
    with run True o1 have "out = o1" by (cases o1) (auto simp: dispatch_fd_def)
    with read_section_I2_rw[OF kp inv len o1] fin show ?thesis by simp
  next
    case T1: True
    then obtain s1 where s1: "o1 = Returned s1" by blast
    from read_section_I2_rw[OF kp inv len o1, of s1] s1 have i1: "I2_rw (fst s1)" by simp
    from read_section_length[OF o1[unfolded s1] len] have l1: "x < length (watch (fst s1))" .
    obtain o2 where o2: "write_section env fdset x s1 = Some o2"
      using run True o1 s1 by (cases "write_section env fdset x s1") (auto simp: dispatch_fd_def)
    show ?thesis
    proof (cases "\<exists>s2. o2 = Returned s2")
      case False
      with run True o1 s1 o2 have "out = o2" by (cases o2) (auto simp: dispatch_fd_def)
      with write_section_I2_rw[OF kp i1 l1 o2] fin show ?thesis by simp
    next
      case T2: True
      then obtain s2 where s2: "o2 = Returned s2" by blast
      from write_section_I2_rw[OF kp i1 l1 o2, of s2] s2 have i2: "I2_rw (fst s2)" by simp
      from run True o1 s1 o2 s2 have "out = except_section env fdset x s2"
        by (auto simp: dispatch_fd_def)
      with except_section_I2_rw[OF kp i2, of fdset x s'] fin show ?thesis by simp
    qed
  qed
qed

lemma scan_I2_rw:
  assumes kp: "keeps_I2_rw env" and run: "scan env fdset i s = Some out"
  shows "I2_rw (fst s) \<longrightarrow> (\<forall>s'. final out = Some s' \<longrightarrow> I2_rw (fst s'))"
  using run
proof (induct rule: scan_induct)
  case (stop i s)
  then show ?case by simp
next
  case (round i s s1 out)
  show ?case
  proof
    assume "I2_rw (fst s)"
    from dispatch_fd_I2_rw[OF kp this round(1,2)] have "I2_rw (fst s1)" by simp
    with round(3) show "\<forall>s'. final out = Some s' \<longrightarrow> I2_rw (fst s')" by simp
  qed
next
  case (exit i s out)
  show ?case
  proof
    assume "I2_rw (fst s)"
    from dispatch_fd_I2_rw[OF kp this exit(1,2)]
    show "\<forall>s'. final out = Some s' \<longrightarrow> I2_rw (fst s')" by simp
  qed
qed

lemma verify_iff:
  "verify d \<longleftrightarrow>
     (\<forall>x. 3 \<le> x \<and> x < length (watch d) \<and> active (watch d ! x) \<longrightarrow>
          mirror Read d x \<and> mirror Write d x)"
  by (auto simp: verify_def list_all_iff mirror_def)

text \<open>
  Claim C4, as the spec has it, does not hold: the exception interest bit is cleared when
  the exception handler returns false, while the handler stays in the entry and the
  descriptor stays active; and the assertions of the self-verification do not look at the
  exception bit.  Here all of I2 holds before the call, the callbacks change nothing, the
  call returns, I2 fails afterwards, and the self-verification accepts the result.
\<close>

theorem I2_exception_bit_counterexample:
  "I2 d_exc \<and>
   DispatchOne (example_env (1, 0, fdsets {} {} {3}) (answering keep_reader)) 100 (d_exc, []) =
     Some (Returned
       (\<lparr>select = fdsets {3} {} {},
         watch = [no_watch, no_watch, no_watch,
                  \<lparr>active = True, read_cb = [0], write_cb = [], except_cb = Some 1\<rparr>]\<rparr>,
        [LogSelect [(CHR ''r'', 3), (CHR ''e'', 3)], InvokeExcept 3 1])) \<and>
   \<not> I2 \<lparr>select = fdsets {3} {} {},
          watch = [no_watch, no_watch, no_watch,
                   \<lparr>active = True, read_cb = [0], write_cb = [], except_cb = Some 1\<rparr>]\<rparr> \<and>
   verify \<lparr>select = fdsets {3} {} {},
          watch = [no_watch, no_watch, no_watch,
                   \<lparr>active = True, read_cb = [0], write_cb = [], except_cb = Some 1\<rparr>]\<rparr>"
  by (simp add: run_simps d_exc_def I2_def mirror_def keep_reader_def)

text \<open>
  Claim C4, amended.  With the self-verification on, \<open>DispatchOne\<close> aborts before the wait
  unless, for every active descriptor from 3 on, the read interest bit is set iff the read
  queue is non-empty and the write interest bit is set iff the write queue is non-empty.
  If this holds for every active descriptor of the table, and every callback and the default
  exception policy keep it, then it holds again in whatever way \<open>DispatchOne\<close> ends, by
  returning or by throwing.
\<close>

theorem DispatchOne_keeps_I2_rw:
  "(self_verify env \<and>
    \<not> (\<forall>x. 3 \<le> x \<and> x < length (watch d) \<and> active (watch d ! x) \<longrightarrow>
             mirror Read d x \<and> mirror Write d x) \<longrightarrow>
      DispatchOne env t (d, tr) = Some Aborted) \<and>
   (keeps_I2_rw env \<and> I2_rw d \<and> DispatchOne env t (d, tr) = Some out \<and>
    final out = Some (d', tr') \<longrightarrow> I2_rw d')"
proof (intro conjI impI)
  assume "self_verify env \<and>
    \<not> (\<forall>x. 3 \<le> x \<and> x < length (watch d) \<and> active (watch d ! x) \<longrightarrow>
             mirror Read d x \<and> mirror Write d x)"
  then have "self_verify env \<and> \<not> verify d" unfolding verify_iff by blast
  then show "DispatchOne env t (d, tr) = Some Aborted" by (simp add: DispatchOne_def)
next
  assume a: "keeps_I2_rw env \<and> I2_rw d \<and> DispatchOne env t (d, tr) = Some out \<and>
    final out = Some (d', tr')"
  then have run: "DispatchOne env t (d, tr) = Some out" and fin: "final out = Some (d', tr')"
    by simp_all
  from run fin show "I2_rw d'"
  proof (cases rule: DispatchOne_cases)
    case (wait r e fdset)
    with a show ?thesis by simp
  next
    case (scan r e fdset n)
    from scan_I2_rw[OF _ scan(3)] a show ?thesis by simp
  qed
qed

lemma keeps_I2_rw_answering: "keeps_I2_rw (example_env res (answering ret))"
  by (simp add: keeps_I2_rw_def example_env_def answering_def throwing_policy_def)

theorem DispatchOne_keeps_I2_rw_witness:
  "I2_rw d_two \<and>
   (\<exists>d' tr'.
      DispatchOne (example_env (3, 0, fdsets {3, 4} {4} {4}) (answering (\<lambda>c. c = 3))) 100
        (d_two, []) = Some (Returned (d', tr')) \<and> d' \<noteq> d_two \<and> I2_rw d') \<and>
   DispatchOne (example_env (1, 0, fdsets {} {3} {}) (answering (\<lambda>c. True))) 100 (d_stale, []) =
     Some Aborted"
proof -
  have i: "I2_rw d_two"
    by (simp add: I2_rw_def d_two_def mirror_def fdsets_def no_watch_def InRead_def InWrite_def
        upt_rec)
  have v: "self_verify (example_env (1, 0, fdsets {} {3} {}) (answering (\<lambda>c. True))) \<and>
    \<not> (\<forall>x. 3 \<le> x \<and> x < length (watch d_stale) \<and> active (watch d_stale ! x) \<longrightarrow>
             mirror Read d_stale x \<and> mirror Write d_stale x)"
    by (auto simp: example_env_def d_stale_def mirror_def fdsets_def InWrite_def
        intro!: exI[of _ 3])
  from DispatchOne_keeps_I2_rw[of "example_env (1, 0, fdsets {} {3} {}) (answering (\<lambda>c. True))"
      d_stale 100 "[]"] v
  have 1: "DispatchOne (example_env (1, 0, fdsets {} {3} {}) (answering (\<lambda>c. True))) 100
      (d_stale, []) = Some Aborted" by blast
  let ?d = "\<lparr>select = fdsets {} {4} {},
       watch = [no_watch, no_watch, no_watch, no_watch,
                \<lparr>active = True, read_cb = [], write_cb = [3], except_cb = Some 4\<rparr>]\<rparr>"
  let ?tr = "[LogSelect [(CHR ''r'', 3), (CHR ''r'', 4), (CHR ''w'', 4)],
       Invoke Read 3 0, Invoke Read 4 1, Invoke Write 4 2, Invoke Write 4 3,
       InvokeExcept 4 4]"
  have f: "final (Returned (?d, ?tr)) = Some (?d, ?tr)" by simp
  from DispatchOne_keeps_I2_rw[of
      "example_env (3, 0, fdsets {3, 4} {4} {4}) (answering (\<lambda>c. c = 3))" d_two 100 "[]"
      "Returned (?d, ?tr)" ?d ?tr]
    keeps_I2_rw_answering i run_d_two f
  have "I2_rw ?d" by blast
  with i 1 run_d_two show ?thesis by (simp add: d_two_def fdsets_def)
qed

section \<open>The self-pipe\<close>

lemma Interrupt_loop_zeros:
  assumes "\<forall>m<k. wr (n + m) = 0"
  shows "Interrupt_loop wr n tr =
         Interrupt_loop wr (n + k) (tr @ concat (replicate k [PipeWrite 0, LogWakeUp]))"
  using assms
proof (induct k arbitrary: n tr)
  case 0
  then show ?case by simp
next
  case (Suc k)
  from Suc(2) have z: "wr n = 0" by (metis add.right_neutral zero_less_Suc)
  have "\<forall>m<k. wr (n + 1 + m) = 0"
  proof (intro allI impI)
    fix m assume "m < k"
    then have "Suc m < Suc k" by simp
    with Suc(2) have "wr (n + Suc m) = 0" by blast
    then show "wr (n + 1 + m) = 0" by simp
  qed
  from Suc(1)[OF this] z show ?case
    by (subst Interrupt_loop.simps) simp
qed

lemma Interrupt_loop_stops:
  assumes "Interrupt_loop wr n tr = Some y"
  shows "\<exists>m\<ge>n. wr m \<noteq> 0"
  using assms
proof (induct rule: Interrupt_loop.raw_induct[rotated 1, consumes 1, case_names step])
  case (step f wr n tr y)
  show ?case
  proof (cases "wr n = 0")
    case True
    with step(2) have "f wr (n + 1) (tr @ [PipeWrite 0, LogWakeUp]) = Some y" by simp
    from step(1)[OF this] show ?thesis by (metis add_leD1)
  next
    case False
    then show ?thesis by blast
  qed
qed

text \<open>
  Claim C6.  When the writes on the pipe return zero \<open>n\<close> times and then a value other than
  zero, \<open>Interrupt\<close> has called \<open>write\<close> \<open>n + 1\<close> times, each zero followed by a log line; it
  returns if the last value is one, so that exactly one byte has been written, and the
  process is ended by \<open>die_unless\<close> if it is anything else.  When every write returns
  zero, \<open>Interrupt\<close> does not return.  The dispatcher's table and interest set are not
  changed.
\<close>

theorem Interrupt_writes_one_byte:
  "((\<forall>m<n. wr m = 0) \<and> wr n \<noteq> 0 \<longrightarrow>
      Interrupt wr (d, tr) =
      (if wr n = 1
       then Some (Returned (d, tr @ concat (replicate n [PipeWrite 0, LogWakeUp]) @ [PipeWrite 1]))
       else Some Aborted)) \<and>
   ((\<forall>m. wr m = 0) \<longrightarrow> Interrupt wr (d, tr) = None)"
proof (intro conjI impI)
  assume a: "(\<forall>m<n. wr m = 0) \<and> wr n \<noteq> 0"
  then have "\<forall>m<n. wr (0 + m) = 0" by simp
  from Interrupt_loop_zeros[OF this, of tr]
  have "Interrupt_loop wr 0 tr =
        Interrupt_loop wr n (tr @ concat (replicate n [PipeWrite 0, LogWakeUp]))" by simp
  also from a have "\<dots> = Some (wr n, (tr @ concat (replicate n [PipeWrite 0, LogWakeUp])) @
                              [PipeWrite (wr n)])"
    by (subst Interrupt_loop.simps) simp
  finally show "Interrupt wr (d, tr) =
      (if wr n = 1
       then Some (Returned (d, tr @ concat (replicate n [PipeWrite 0, LogWakeUp]) @ [PipeWrite 1]))
       else Some Aborted)"
    by (simp add: Interrupt_def)
next
  assume a: "\<forall>m. wr m = 0"
  have "Interrupt_loop wr 0 tr = None"
  proof (cases "Interrupt_loop wr 0 tr")
    case (Some y)
    from Interrupt_loop_stops[OF this] a show ?thesis by simp
  qed simp
  then show "Interrupt wr (d, tr) = None" by (simp add: Interrupt_def)
qed

theorem Interrupt_writes_one_byte_witness:
  "Interrupt (\<lambda>n. if n < 2 then 0 else 1) (d_two, []) =
     Some (Returned (d_two, [PipeWrite 0, LogWakeUp, PipeWrite 0, LogWakeUp, PipeWrite 1])) \<and>
   Interrupt (\<lambda>n. if n < 1 then 0 else - 1) (d_two, []) = Some Aborted \<and>
   Interrupt (\<lambda>n. 0) (d_two, []) = None"
  using Interrupt_writes_one_byte[of 2 "\<lambda>n. if n < 2 then 0 else 1" d_two "[]"]
    Interrupt_writes_one_byte[of 1 "\<lambda>n. if n < 1 then 0 else - 1" d_two "[]"]
    Interrupt_writes_one_byte[of 0 "\<lambda>n. 0" d_two "[]"]
  by (simp add: numeral_2_eq_2)

lemma SelfPipeCallback_loop_reads:
  assumes "\<forall>m<k. 0 < rd (n + m)"
  shows "SelfPipeCallback_loop rd n tr =
         SelfPipeCallback_loop rd (n + k) (tr @ map (\<lambda>m. PipeRead (rd m)) [n..<n + k])"
  using assms
proof (induct k arbitrary: n tr)
  case 0
  then show ?case by simp
next
  case (Suc k)
  from Suc(2) have z: "0 < rd n" by (metis add.right_neutral zero_less_Suc)
  have "\<forall>m<k. 0 < rd (n + 1 + m)"
  proof (intro allI impI)
    fix m assume "m < k"
    then have "Suc m < Suc k" by simp
    with Suc(2) have "0 < rd (n + Suc m)" by blast
    then show "0 < rd (n + 1 + m)" by simp
  qed
  from Suc(1)[OF this, of "tr @ [PipeRead (rd n)]"]
  have ih: "SelfPipeCallback_loop rd (n + 1) (tr @ [PipeRead (rd n)]) =
        SelfPipeCallback_loop rd (n + 1 + k)
          ((tr @ [PipeRead (rd n)]) @ map (\<lambda>m. PipeRead (rd m)) [n + 1..<n + 1 + k])" .
  have "SelfPipeCallback_loop rd n tr =
        SelfPipeCallback_loop rd (n + 1) (tr @ [PipeRead (rd n)])"
    using z by (subst SelfPipeCallback_loop.simps) simp
  also note ih
  also have "SelfPipeCallback_loop rd (n + 1 + k)
          ((tr @ [PipeRead (rd n)]) @ map (\<lambda>m. PipeRead (rd m)) [n + 1..<n + 1 + k]) =
        SelfPipeCallback_loop rd (n + Suc k) (tr @ map (\<lambda>m. PipeRead (rd m)) [n..<n + Suc k])"
    by (simp add: upt_conv_Cons del: upt_Suc)
  finally show ?case .
qed

lemma SelfPipeCallback_loop_stops:
  assumes "SelfPipeCallback_loop rd n tr = Some y"
  shows "\<exists>m\<ge>n. rd m \<le> 0"
  using assms
proof (induct rule: SelfPipeCallback_loop.raw_induct[rotated 1, consumes 1, case_names step])
  case (step f rd n tr y)
  show ?case
  proof (cases "0 < rd n")
    case True
    with step(2) have "f rd (n + 1) (tr @ [PipeRead (rd n)]) = Some y" by simp
    from step(1)[OF this] show ?thesis by (metis add_leD1)
  next
    case False
    then show ?thesis by (metis le_refl not_less)
  qed
qed

text \<open>
  Claim C8.  Whatever the reads on the pipe return, \<open>SelfPipeCallback\<close> returns nothing but
  true and leaves the dispatcher as it is.  It reads until a read returns zero or less (no
  more data, or an error) and returns then; while every read returns data it goes on
  reading.  In the read part of the handling of the pipe's descriptor, a callback at the
  front of the read queue that behaves so is invoked once and stays registered, and the
  dispatcher, interest bits included, is left as it was.
\<close>

theorem SelfPipeCallback_stays:
  "(SelfPipeCallback rd (d, tr) = Some (b, d', tr') \<longrightarrow> b \<and> d' = d) \<and>
   ((\<forall>m<n. 0 < rd m) \<and> rd n \<le> 0 \<longrightarrow>
      SelfPipeCallback rd (d, tr) =
      Some (True, d, tr @ map (\<lambda>m. PipeRead (rd m)) [0..<n + 1])) \<and>
   ((\<forall>m. 0 < rd m) \<longrightarrow> SelfPipeCallback rd (d, tr) = None) \<and>
   (SelfPipeCallback rd (d, tr) = Some (b, d', tr') \<and> call env c d = (Returns b, d') \<and>
    x < length (watch d) \<and> read_cb (watch d ! x) = c # q \<and> InRead fdset x \<longrightarrow>
      read_section env fdset x (d, dtr) = Some (Returned (d, dtr @ [Invoke Read x c])))"
proof -
  have 1: "b \<and> d' = d" if "SelfPipeCallback rd (d, tr) = Some (b, d', tr')"
    using that by (auto simp: SelfPipeCallback_def split: option.splits)
  have 2: "SelfPipeCallback rd (d, tr) =
      Some (True, d, tr @ map (\<lambda>m. PipeRead (rd m)) [0..<n + 1])"
    if a: "(\<forall>m<n. 0 < rd m) \<and> rd n \<le> 0"
  proof -
    from a have "\<forall>m<n. 0 < rd (0 + m)" by simp
    from SelfPipeCallback_loop_reads[OF this, of tr]
    have "SelfPipeCallback_loop rd 0 tr =
          SelfPipeCallback_loop rd n (tr @ map (\<lambda>m. PipeRead (rd m)) [0..<n])" by simp
    also from a have "\<dots> = Some ((tr @ map (\<lambda>m. PipeRead (rd m)) [0..<n]) @ [PipeRead (rd n)])"
      by (subst SelfPipeCallback_loop.simps) simp
    finally show ?thesis by (simp add: SelfPipeCallback_def)
  qed
  have 3: "SelfPipeCallback rd (d, tr) = None" if a: "\<forall>m. 0 < rd m"
  proof -
    have "SelfPipeCallback_loop rd 0 tr = None"
    proof (cases "SelfPipeCallback_loop rd 0 tr")
      case (Some y)
      from SelfPipeCallback_loop_stops[OF this] a show ?thesis by (metis not_less)
    qed simp
    then show ?thesis by (simp add: SelfPipeCallback_def)
  qed
  have 4: "read_section env fdset x (d, dtr) = Some (Returned (d, dtr @ [Invoke Read x c]))"
    if a: "SelfPipeCallback rd (d, tr) = Some (b, d', tr') \<and> call env c d = (Returns b, d') \<and>
      x < length (watch d) \<and> read_cb (watch d ! x) = c # q \<and> InRead fdset x"
  proof -
    from a 1 have "b \<and> d' = d" by simp
    with a have c: "call env c d = (Returns True, d)" by simp
    from a have qd: "read_cb (watch d ! x) = c # q" and len: "x < length (watch d)"
      and rdy: "InRead fdset x" by simp_all
    have "drain env Read x (d, dtr) = Some (Returned (d, dtr @ [Invoke Read x c]))"
      by (subst drain.simps) (simp add: qd c)
    then show ?thesis by (simp add: read_section_def read_done_def qd len rdy)
  qed
  from 1 2 3 4 show ?thesis by blast
qed

theorem SelfPipeCallback_stays_witness:
  "SelfPipeCallback (\<lambda>n. if n < 2 then 16 else - 1) (d_single, []) =
     Some (True, d_single, [PipeRead 16, PipeRead 16, PipeRead (- 1)]) \<and>
   SelfPipeCallback (\<lambda>n. 1) (d_single, []) = None \<and>
   read_section (example_env (1, 0, fdsets {3} {} {}) (answering (\<lambda>c. True)))
     (fdsets {3} {} {}) 3 (d_single, []) = Some (Returned (d_single, [Invoke Read 3 0]))"
proof -
  let ?rd = "\<lambda>n::nat. if n < 2 then 16 else - 1 :: int"
  let ?env = "example_env (1, 0, fdsets {3} {} {}) (answering (\<lambda>c. True))"
  from SelfPipeCallback_stays[of ?rd d_single "[]" True d_single
      "[PipeRead 16, PipeRead 16, PipeRead (- 1)]" 2 ?env 0 3 "[]" "fdsets {3} {} {}" "[]"]
  have 1: "SelfPipeCallback ?rd (d_single, []) =
      Some (True, d_single, [PipeRead 16, PipeRead 16, PipeRead (- 1)])"
    by (simp add: upt_rec numeral_2_eq_2)
  from SelfPipeCallback_stays[of ?rd d_single "[]" True d_single
      "[PipeRead 16, PipeRead 16, PipeRead (- 1)]" 2 ?env 0 3 "[]" "fdsets {3} {} {}" "[]"] 1
  have 2: "read_section ?env (fdsets {3} {} {}) 3 (d_single, []) =
      Some (Returned (d_single, [Invoke Read 3 0]))"
    by (simp add: example_env_def answering_def d_single_def InRead_def fdsets_def)
  from SelfPipeCallback_stays[of "\<lambda>n. 1" d_single "[]"]
  have 3: "SelfPipeCallback (\<lambda>n. 1) (d_single, []) = None" by simp
  from 1 2 3 show ?thesis by simp
qed

end
